theory Spec2Isabelle
  imports Main "HOL-Library.Sublist" "HOL-Library.Multiset" "HOL-Library.List_Lexorder"
    "HOL-Library.Char_ord"
begin

section \<open>Strings and paths\<close>

text \<open>
  Strings are byte lists (\<^typ>\<open>string\<close>); file names and documents are read as UTF-8.
  The path functions below are the POSIX variants of Node's \<open>path\<close> module, restricted
  to the arguments \<open>prod.ts\<close> passes to them.
\<close>

definition endsWith :: "string \<Rightarrow> string \<Rightarrow> bool" where
  "endsWith s suf = suffix suf s"

definition toLowerCase_char :: "char \<Rightarrow> char" where
  "toLowerCase_char c =
     (let n = (of_char c :: nat) in if 65 \<le> n \<and> n \<le> 90 then char_of (n + 32) else c)"

definition toUpperCase_char :: "char \<Rightarrow> char" where
  "toUpperCase_char c =
     (let n = (of_char c :: nat) in if 97 \<le> n \<and> n \<le> 122 then char_of (n - 32) else c)"

text \<open>
  \<open>String.prototype.toLowerCase\<close> on the bytes of a UTF-8 string: only the ASCII capitals
  change. (The non-ASCII characters that JavaScript lowers stay non-ASCII or lower to
  letters that occur in no image extension, so membership in \<open>imageExtensions\<close> is
  the same.)
\<close>

definition toLowerCase :: "string \<Rightarrow> string" where
  "toLowerCase s = map toLowerCase_char s"

text \<open>
  \<open>path.join(dir, name)\<close> for a normalised directory and a name that is empty or a
  single path segment: an empty name contributes nothing.
\<close>

definition path_join :: "string \<Rightarrow> string \<Rightarrow> string" where
  "path_join dir name = (if name = [] then dir else dir @ ''/'' @ name)"

text \<open>
  \<open>path.basename(p)\<close>: trailing separators are ignored and the last segment is
  returned.
\<close>

definition basename :: "string \<Rightarrow> string" where
  "basename p =
     rev (takeWhile (\<lambda>c. c \<noteq> CHR ''/'') (dropWhile (\<lambda>c. c = CHR ''/'') (rev p)))"

text \<open>
  \<open>path.basename(p, ext)\<close>: the suffix \<open>ext\<close> is cut from the last segment; a
  path equal to the suffix gives the empty string.
\<close>

definition basename_ext :: "string \<Rightarrow> string \<Rightarrow> string" where
  "basename_ext p ext =
     (if ext \<noteq> [] \<and> length ext \<le> length p \<and> ext = p then []
      else let b = basename p in
        if ext \<noteq> [] \<and> length ext \<le> length p \<and> suffix ext b \<and> b \<noteq> ext
        then take (length b - length ext) b else b)"

text \<open>
  \<open>path.extname(name)\<close> for a name without separator: the text from the last dot on;
  empty when there is no dot, when the only dot is the first character, and for \<open>..\<close>.
\<close>

definition extname :: "string \<Rightarrow> string" where
  "extname name =
     (let tail = takeWhile (\<lambda>c. c \<noteq> CHR ''.'') (rev name);
          startDot = length name - length tail - 1
      in if CHR ''.'' \<notin> set name then []
         else if startDot = 0 then []
         else if name = ''..'' then []
         else drop startDot name)"

section \<open>The output directory\<close>

text \<open>
  A directory is the list of its entries in the order \<open>fs.readdirSync\<close> reports them,
  each under the bytes of its name. An entry is a regular file with its bytes, a
  subdirectory, or something for which \<open>isFile()\<close> and \<open>isDirectory()\<close> are both false:
  \<open>Other\<close> is one that \<open>fs.existsSync\<close> finds (a socket, a device, a symbolic link
  whose target exists), \<open>Dangling\<close> is a symbolic link whose target is missing, for
  which \<open>fs.existsSync\<close> is false. The source tree \<open>md\<close> and the output tree
  \<open>public\<close> have this shape. The output tree as a whole is a \<open>dir option\<close>: \<open>None\<close>
  when \<open>fs.existsSync(imageDir)\<close> is false.
\<close>

datatype node = File string | Dir "(string \<times> node) list" | Other | Dangling

type_synonym dir = "(string \<times> node) list"

datatype fs_error = ENOENT | EISDIR | EACCES

fun isFile :: "node \<Rightarrow> bool" where
  "isFile (File bytes) = True"
| "isFile (Dir sub) = False"
| "isFile Other = False"
| "isFile Dangling = False"

fun isDirectory :: "node \<Rightarrow> bool" where
  "isDirectory (File bytes) = False"
| "isDirectory (Dir sub) = True"
| "isDirectory Other = False"
| "isDirectory Dangling = False"

fun dir_entries :: "node \<Rightarrow> dir" where
  "dir_entries (File bytes) = []"
| "dir_entries (Dir sub) = sub"
| "dir_entries Other = []"
| "dir_entries Dangling = []"

text \<open>
  \<open>fs.readdirSync(imageDir)\<close> returns the names as strings: the bytes of each name are
  decoded as UTF-8, and when such a string is passed back to the file system it is
  encoded again. \<open>decode\<close> is this round trip, a parameter of the environment: it
  returns a name that is valid UTF-8 as it is, and replaces the bytes that are not, so
  that such an entry is listed under a name it does not have.
\<close>

definition readdirSync :: "(string \<Rightarrow> string) \<Rightarrow> dir \<Rightarrow> string list" where
  "readdirSync decode d = map (\<lambda>e. decode (fst e)) d"

text \<open>
  \<open>fs.existsSync(path.join(imageDir, name))\<close> follows symbolic links: it is false for a
  missing entry and for a dangling link. The empty name is the directory itself.
\<close>

definition existsSync :: "dir \<Rightarrow> string \<Rightarrow> bool" where
  "existsSync d name =
     (name = [] \<or> (case map_of d name of None \<Rightarrow> False | Some nd \<Rightarrow> nd \<noteq> Dangling))"

text \<open>
  \<open>fs.unlinkSync(path.join(imageDir, name))\<close> throws when the entry is missing, when it is
  a directory, and when the operating system refuses to change the entry (the names in
  \<open>denied\<close>, a parameter of the environment); otherwise it removes the entry.
\<close>

definition unlinkSync :: "string set \<Rightarrow> dir \<Rightarrow> string \<Rightarrow> fs_error + dir" where
  "unlinkSync denied d name =
     (case map_of d name of
        None \<Rightarrow> Inl ENOENT
      | Some nd \<Rightarrow>
          if isDirectory nd then Inl EISDIR
          else if name \<in> denied then Inl EACCES
          else Inr (filter (\<lambda>e. fst e \<noteq> name) d))"

text \<open>
  \<open>fs.writeFileSync(path.join(imageDir, name), bytes)\<close> creates the file or replaces its
  bytes; it throws on a directory (the empty name is \<open>imageDir\<close> itself) and on a
  refused name. It follows symbolic links: through a link the bytes go to the target, and
  the entry stays a link, whose target exists from then on.
\<close>

fun written_node :: "node \<Rightarrow> string \<Rightarrow> node" where
  "written_node (File old) bytes = File bytes"
| "written_node (Dir sub) bytes = Dir sub"
| "written_node Other bytes = Other"
| "written_node Dangling bytes = Other"

definition writeFileSync :: "string set \<Rightarrow> dir \<Rightarrow> string \<Rightarrow> string \<Rightarrow> fs_error + dir" where
  "writeFileSync denied d name bytes =
     (if name = [] then Inl EISDIR
      else case map_of d name of
        None \<Rightarrow> if name \<in> denied then Inl EACCES else Inr (d @ [(name, File bytes)])
      | Some nd \<Rightarrow>
          if isDirectory nd then Inl EISDIR
          else if name \<in> denied then Inl EACCES
          else Inr (map (\<lambda>e. if fst e = name then (name, written_node (snd e) bytes) else e)
                      d))"

text \<open>Resolving a relative path (a list of segments) below a directory.\<close>

fun lookup_path :: "dir \<Rightarrow> string list \<Rightarrow> node option" where
  "lookup_path d [] = Some (Dir d)"
| "lookup_path d [n] = map_of d n"
| "lookup_path d (n # m # ms) =
     (case map_of d n of
        None \<Rightarrow> None
      | Some nd \<Rightarrow> if isDirectory nd then lookup_path (dir_entries nd) (m # ms) else None)"

section \<open>Orphan collection: \<open>cleanupOrphanedImages\<close>\<close>

definition imageExtensions :: "string list" where
  "imageExtensions = [''.png'', ''.jpg'', ''.jpeg'', ''.gif'', ''.svg'', ''.webp'']"

definition is_image :: "string \<Rightarrow> bool" where
  "is_image file = (toLowerCase (extname file) \<in> set imageExtensions)"

text \<open>
  The \<open>for (const file of filesInDir)\<close> loop. \<open>unlinkSync\<close> is called outside any
  \<open>try\<close>, so an exception leaves the loop and the function; the directory is returned as
  it is at that moment.
\<close>

fun sweep ::
  "string set \<Rightarrow> string \<Rightarrow> string set \<Rightarrow> string list \<Rightarrow> dir \<Rightarrow> (fs_error + unit) \<times> dir"
where
  "sweep denied imageDir allUsedImages [] d = (Inr (), d)"
| "sweep denied imageDir allUsedImages (file # rest) d =
     (let fullPath = path_join imageDir file in
      if is_image file then
        if fullPath \<notin> allUsedImages then
          (case unlinkSync denied d file of
             Inl e \<Rightarrow> (Inl e, d)
           | Inr d' \<Rightarrow> sweep denied imageDir allUsedImages rest d')
        else sweep denied imageDir allUsedImages rest d
      else sweep denied imageDir allUsedImages rest d)"

definition cleanupOrphanedImages ::
  "(string \<Rightarrow> string) \<Rightarrow> string set \<Rightarrow> string \<Rightarrow> string set \<Rightarrow> dir option
     \<Rightarrow> (fs_error + unit) \<times> dir option"
where
  "cleanupOrphanedImages decode denied imageDir allUsedImages fs =
     (case fs of
        None \<Rightarrow> (Inr (), None)
      | Some d \<Rightarrow>
          (let filesInDir = readdirSync decode d;
               r = sweep denied imageDir allUsedImages filesInDir d
           in (fst r, Some (snd r))))"

section \<open>Navigation: \<open>prettifyName\<close> and \<open>buildNavTree\<close>\<close>

datatype NavItem =
  NavItem (nav_name: string) (nav_path: string) (nav_children: "NavItem list option")

definition is_word_char :: "char \<Rightarrow> bool" where
  \<comment> \<open>the class \<open>\w\<close>: letters, digits and the underscore\<close>
  "is_word_char c =
     (let n = (of_char c :: nat) in
      (65 \<le> n \<and> n \<le> 90) \<or> (97 \<le> n \<and> n \<le> 122) \<or> (48 \<le> n \<and> n \<le> 57) \<or> n = 95)"

text \<open>
  \<open>.replace(/\b\w/g, (l) => l.toUpperCase())\<close>: a word character is put in upper case
  when the character before it is not a word character (or there is none). The flag
  says whether the previous character was a word character.
\<close>

fun capitalize_words :: "bool \<Rightarrow> string \<Rightarrow> string" where
  "capitalize_words prev [] = []"
| "capitalize_words prev (c # cs) =
     (if is_word_char c \<and> \<not> prev then toUpperCase_char c else c)
       # capitalize_words (is_word_char c) cs"

definition prettifyName :: "string \<Rightarrow> string" where
  "prettifyName name =
     (let baseName = basename_ext name ''.md'' in
      if baseName = ''index'' then ''Home''
      else capitalize_words False (map (\<lambda>c. if c = CHR ''-'' then CHR '' '' else c) baseName))"

definition md_to_html :: "string \<Rightarrow> string" where
  \<comment> \<open>\<open>name.replace(/\.md$/, ".html")\<close>\<close>
  "md_to_html name =
     (if endsWith name ''.md'' then take (length name - 3) name @ ''.html'' else name)"

text \<open>
  \<open>Array.prototype.sort(compare)\<close> is a stable sort; for a consistent comparison every
  stable sort returns the same array, here by insertion from the right. The comparison
  returns a number whose sign decides.
\<close>

fun insert_by :: "('a \<Rightarrow> 'a \<Rightarrow> int) \<Rightarrow> 'a \<Rightarrow> 'a list \<Rightarrow> 'a list" where
  "insert_by cmp x [] = [x]"
| "insert_by cmp x (y # ys) =
     (if cmp x y \<le> 0 then x # y # ys else y # insert_by cmp x ys)"

definition array_sort :: "('a \<Rightarrow> 'a \<Rightarrow> int) \<Rightarrow> 'a list \<Rightarrow> 'a list" where
  "array_sort cmp xs = foldr (insert_by cmp) xs []"

text \<open>
  The two comparison functions of \<open>buildNavTree\<close>. \<open>localeCompare\<close> is
  \<open>String.prototype.localeCompare\<close>, the collation of the host's locale: a parameter.
  \<open>buildNavTree\<close> is given the source tree as \<open>fs.readdirSync\<close> with
  \<open>withFileTypes\<close> reports it, every directory of it being readable under its name.
\<close>

definition files_compare :: "(string \<Rightarrow> string \<Rightarrow> int) \<Rightarrow> string \<times> node \<Rightarrow> string \<times> node \<Rightarrow> int" where
  "files_compare localeCompare a b =
     (if fst a = ''index.md'' then - 1
      else if fst b = ''index.md'' then 1
      else localeCompare (fst a) (fst b))"

definition dirs_compare :: "(string \<Rightarrow> string \<Rightarrow> int) \<Rightarrow> string \<times> node \<Rightarrow> string \<times> node \<Rightarrow> int" where
  "dirs_compare localeCompare a b = localeCompare (fst a) (fst b)"

definition is_md_file :: "string \<times> node \<Rightarrow> bool" where
  "is_md_file e = (isFile (snd e) \<and> endsWith (fst e) ''.md'')"

definition file_item :: "string \<Rightarrow> string \<times> node \<Rightarrow> NavItem" where
  \<comment> \<open>the object pushed by the first loop\<close>
  "file_item webPathPrefix f =
     NavItem (prettifyName (fst f)) (webPathPrefix @ md_to_html (fst f)) None"

definition dir_item :: "string \<times> node \<Rightarrow> NavItem list \<Rightarrow> NavItem list" where
  \<comment> \<open>what the second loop pushes for \<open>subDir\<close>, given its \<open>children\<close>: one node or nothing\<close>
  "dir_item subDir children =
     (if length children > 0 then
        (let indexPage = find (\<lambda>child. basename (nav_path child) = ''index.html'') children
         in [NavItem (prettifyName (fst subDir))
               (case indexPage of Some page \<Rightarrow> nav_path page | None \<Rightarrow> ''#'')
               (Some children)])
      else [])"

lemma set_insert_by: "set (insert_by cmp x ys) = insert x (set ys)"
  by (induction ys) auto

lemma set_array_sort: "set (array_sort cmp xs) = set xs"
  by (induction xs) (auto simp: array_sort_def set_insert_by)

lemma size_dir_entries:
  "e \<in> set entries \<Longrightarrow>
   size_list (size_prod (\<lambda>x. 0) size) (dir_entries (snd e))
     < size_list (size_prod (\<lambda>x. 0) size) entries"
proof (induction entries)
  case Nil
  then show ?case by simp
next
  case (Cons a entries)
  show ?case
  proof (cases "e = a")
    case True
    then show ?thesis by (cases a; cases "snd a") auto
  next
    case False
    with Cons show ?thesis by auto
  qed
qed

function buildNavTree :: "(string \<Rightarrow> string \<Rightarrow> int) \<Rightarrow> dir \<Rightarrow> string \<Rightarrow> NavItem list" where
  "buildNavTree localeCompare entries webPathPrefix =
     (let files = array_sort (files_compare localeCompare) (filter is_md_file entries);
          dirs = array_sort (dirs_compare localeCompare)
                   (filter (\<lambda>e. isDirectory (snd e)) entries);
          navItems = foldl (\<lambda>nav f. nav @ [file_item webPathPrefix f]) [] files
      in foldl (\<lambda>nav subDir.
                  nav @ dir_item subDir
                          (buildNavTree localeCompare (dir_entries (snd subDir))
                             (webPathPrefix @ fst subDir @ ''/'')))
           navItems dirs)"
  by pat_completeness auto
termination
proof (relation "measure (\<lambda>(lc, entries, pre). size_list (size_prod (\<lambda>x. 0) size) entries)")
  show "wf (measure (\<lambda>(lc, entries, pre). size_list (size_prod (\<lambda>x. 0) size) entries))"
    by simp
next
  fix localeCompare :: "string \<Rightarrow> string \<Rightarrow> int"
    and entries :: dir and webPathPrefix :: string and files dirs :: dir
    and navItems nav :: "NavItem list" and subDir :: "string \<times> node"
  assume "dirs = array_sort (dirs_compare localeCompare)
                   (filter (\<lambda>e. isDirectory (snd e)) entries)"
    and "subDir \<in> set dirs"
  then have "subDir \<in> set entries"
    by (simp add: set_array_sort)
  then show "((localeCompare, dir_entries (snd subDir), webPathPrefix @ fst subDir @ ''/''),
              (localeCompare, entries, webPathPrefix))
             \<in> measure (\<lambda>(lc, entries, pre). size_list (size_prod (\<lambda>x. 0) size) entries)"
    using size_dir_entries [of subDir entries] by simp
qed

declare buildNavTree.simps [simp del]

text \<open>
  A comparison to put in the place of \<open>localeCompare\<close> in examples: the order of the
  strings' bytes.
\<close>

definition codeUnitCompare :: "string \<Rightarrow> string \<Rightarrow> int" where
  "codeUnitCompare a b = (if a < b then - 1 else if a = b then 0 else 1)"

text \<open>
  \<open>localeCompare\<close> is not that order. Where two names differ in a letter, the collation
  compares the letters without regard to their case, as a dictionary does: \<open>a.md\<close>
  comes before \<open>B.md\<close>, although the byte of \<open>B\<close> is the smaller one. The
  following comparison does the same and stands for \<open>localeCompare\<close> in examples with
  such names.
\<close>

definition dictionaryCompare :: "string \<Rightarrow> string \<Rightarrow> int" where
  "dictionaryCompare a b = codeUnitCompare (toLowerCase a) (toLowerCase b)"

section \<open>Image externalisation: \<open>processMarkdownImages\<close>\<close>

subsection \<open>The regular expression\<close>

text \<open>
  \<open>/!\[(.*?)\]\((https?:\/\/.*?)\)/g\<close>, as the backtracking matcher reads it. A dot
  matches every character but the line terminators LF, CR, U+2028 and U+2029 (the last
  two are three bytes each in UTF-8).
\<close>

record img_match =
  fullMatch :: string
  altText :: string
  remoteUrl :: string

definition line_terminator_at :: "string \<Rightarrow> bool" where
  "line_terminator_at s =
     (prefix [CHR 0x0A] s \<or> prefix [CHR 0x0D] s \<or>
      prefix [CHR 0xE2, CHR 0x80, CHR 0xA8] s \<or> prefix [CHR 0xE2, CHR 0x80, CHR 0xA9] s)"

definition strip_prefix :: "string \<Rightarrow> string \<Rightarrow> string option" where
  "strip_prefix p s = (if prefix p s then Some (drop (length p) s) else None)"

text \<open>
  A lazy \<open>.*?\<close> followed by the rest of the pattern \<open>k\<close>: the rest is tried first, and
  only when it fails the dot takes one more character.
\<close>

fun lazy_dots :: "(string \<Rightarrow> string \<Rightarrow> 'a option) \<Rightarrow> string \<Rightarrow> string \<Rightarrow> 'a option" where
  "lazy_dots k acc [] = k acc []"
| "lazy_dots k acc (c # cs) =
     (case k acc (c # cs) of
        Some r \<Rightarrow> Some r
      | None \<Rightarrow> if line_terminator_at (c # cs) then None else lazy_dots k (acc @ [c]) cs)"

definition close_paren :: "string \<Rightarrow> string \<Rightarrow> string \<Rightarrow> string \<Rightarrow> (img_match \<times> string) option" where
  \<comment> \<open>the final \<open>\)\<close>, with both groups captured\<close>
  "close_paren alt scheme url s =
     (case s of
        [] \<Rightarrow> None
      | c # rest \<Rightarrow>
          if c = CHR '')'' then
            Some (\<lparr>fullMatch = ''!['' @ alt @ '']('' @ scheme @ url @ '')'',
                   altText = alt, remoteUrl = scheme @ url\<rparr>, rest)
          else None)"

definition url_group :: "string \<Rightarrow> string \<Rightarrow> (img_match \<times> string) option" where
  \<comment> \<open>\<open>\]\((https?:\/\/.*?)\)\<close>\<close>
  "url_group alt s =
     (case strip_prefix '']('' s of
        None \<Rightarrow> None
      | Some s1 \<Rightarrow>
          (case strip_prefix ''https://'' s1 of
             Some s2 \<Rightarrow> lazy_dots (close_paren alt ''https://'') [] s2
           | None \<Rightarrow>
               (case strip_prefix ''http://'' s1 of
                  Some s2 \<Rightarrow> lazy_dots (close_paren alt ''http://'') [] s2
                | None \<Rightarrow> None)))"

definition image_regex_at :: "string \<Rightarrow> (img_match \<times> string) option" where
  \<comment> \<open>a match starting at the first character, with the text after it\<close>
  "image_regex_at s =
     (case strip_prefix ''!['' s of
        None \<Rightarrow> None
      | Some s1 \<Rightarrow> lazy_dots url_group [] s1)"

lemma lazy_dots_shorter:
  assumes k: "\<forall>a t r'. k a t = Some r' \<longrightarrow> length (snd r') \<le> length t"
  shows "lazy_dots k acc s = Some r \<Longrightarrow> length (snd r) \<le> length s"
proof (induction s arbitrary: acc)
  case Nil
  then have "k acc [] = Some r" by simp
  with k have "length (snd r) \<le> length ([] :: string)" by blast
  then show ?case by simp
next
  case (Cons c cs)
  show ?case
  proof (cases "k acc (c # cs)")
    case (Some r')
    with Cons.prems have "r' = r" by simp
    with Some k show ?thesis by blast
  next
    case None
    with Cons.prems have "lazy_dots k (acc @ [c]) cs = Some r"
      by (simp split: if_splits)
    from Cons.IH [OF this] show ?thesis by simp
  qed
qed

lemma close_paren_shorter:
  "\<forall>a t r'. close_paren alt scheme a t = Some r' \<longrightarrow> length (snd r') \<le> length t"
  by (auto simp: close_paren_def split: list.splits if_splits)

lemma url_group_shorter:
  "\<forall>a t r'. url_group a t = Some r' \<longrightarrow> length (snd r') \<le> length t"
  unfolding url_group_def strip_prefix_def
  by (auto split: option.splits if_splits
        dest!: lazy_dots_shorter [OF close_paren_shorter])

lemma image_regex_at_shorter:
  "image_regex_at s = Some r \<Longrightarrow> length (snd r) < length s"
  unfolding image_regex_at_def strip_prefix_def
  by (auto split: option.splits if_splits simp: prefix_def
        dest!: lazy_dots_shorter [OF url_group_shorter])

text \<open>
  \<open>[...markdown.matchAll(imageUrlRegex)]\<close>: the leftmost match from the current
  position; the search goes on after the match.
\<close>

function matchAll :: "string \<Rightarrow> img_match list" where
  "matchAll [] = []"
| "matchAll (c # cs) =
     (case image_regex_at (c # cs) of
        Some r \<Rightarrow> fst r # matchAll (snd r)
      | None \<Rightarrow> matchAll cs)"
  by pat_completeness auto
termination
  by (relation "measure length") (auto dest: image_regex_at_shorter)

subsection \<open>\<open>String.prototype.replace\<close> with a string pattern\<close>

text \<open>
  The first occurrence of the pattern is replaced. In the replacement text \<open>$$\<close>,
  \<open>$&\<close>, \<open>$`\<close> and \<open>$'\<close> stand for a dollar sign, the matched text, the text before it
  and the text after it; a string pattern has no groups, so every other \<open>$\<close> is literal.
\<close>

fun split_at_first :: "string \<Rightarrow> string \<Rightarrow> (string \<times> string) option" where
  "split_at_first pat [] = (if pat = [] then Some ([], []) else None)"
| "split_at_first pat (c # cs) =
     (if prefix pat (c # cs) then Some ([], drop (length pat) (c # cs))
      else map_option (\<lambda>r. (c # fst r, snd r)) (split_at_first pat cs))"

fun get_substitution :: "string \<Rightarrow> string \<Rightarrow> string \<Rightarrow> string \<Rightarrow> string" where
  "get_substitution matched front back [] = []"
| "get_substitution matched front back [c] = [c]"
| "get_substitution matched front back (c # d # r) =
     (if c = CHR ''$'' \<and> d = CHR ''$'' then CHR ''$'' # get_substitution matched front back r
      else if c = CHR ''$'' \<and> d = CHR ''&'' then matched @ get_substitution matched front back r
      else if c = CHR ''$'' \<and> d = CHR 0x60 then front @ get_substitution matched front back r
      else if c = CHR ''$'' \<and> d = CHR 0x27 then back @ get_substitution matched front back r
      else c # get_substitution matched front back (d # r))"

definition js_replace :: "string \<Rightarrow> string \<Rightarrow> string \<Rightarrow> string" where
  "js_replace pat replacement s =
     (case split_at_first pat s of
        None \<Rightarrow> s
      | Some r \<Rightarrow> fst r @ get_substitution pat (fst r) (snd r) replacement @ snd r)"

subsection \<open>The environment and the state of a build pass\<close>

text \<open>
  What \<open>processMarkdownImages\<close> takes from outside the program is a parameter:
  \<^item> \<open>url_pathname u\<close> is \<open>new URL(u).pathname\<close> (normalised by the parser: its last
    segment is empty or an entry name), and \<open>None\<close> when the constructor throws;
  \<^item> \<open>fetch n u\<close> is the outcome of the \<open>n\<close>-th call of \<open>fetch\<close> (counted from 0), made
    with the address \<open>u\<close>: \<open>None\<close> when the promise rejects, otherwise a response with
    its \<open>ok\<close> flag, its status text and its body (\<open>None\<close> when reading the body
    rejects);
  \<^item> \<open>imagemin_buffer\<close> is \<open>imagemin.buffer\<close> with the three plugins of the source,
    \<open>None\<close> when it rejects;
  \<^item> \<open>os_denied\<close> are the names in the output directory that the operating system
    refuses to create, overwrite or remove.
\<close>

record response =
  ok :: bool
  statusText :: string
  arrayBuffer :: "string option"

record env =
  url_pathname :: "string \<Rightarrow> string option"
  fetch :: "nat \<Rightarrow> string \<Rightarrow> response option"
  imagemin_buffer :: "string \<Rightarrow> string option"
  os_denied :: "string set"

datatype image_error =
    InvalidURL
  | FetchRejected
  | FetchNotOk string
  | BodyRejected
  | ImageminRejected
  | WriteFailed fs_error

datatype log_line =
    Downloading string
  | SavedTo string
  | ErrorProcessing string image_error

text \<open>
  The state a pass works on: the global \<open>allUsedImages\<close>, the entries of \<open>imageDir\<close>
  (which is \<open>publicDir\<close>), the console, and two ghost logs: the addresses \<open>fetch\<close> was
  called with and the paths \<open>writeFileSync\<close> wrote, both in order.
\<close>

record build_state =
  allUsedImages :: "string set"
  publicDir :: dir
  fetched :: "string list"
  writes :: "string list"
  console :: "log_line list"

definition PORT :: string where
  "PORT = ''3000''"

text \<open>
  The body of \<open>if (!fs.existsSync(localFilePath)) { ... }\<close>. Every \<open>throw\<close> and every
  rejected \<open>await\<close> leaves it with the error and the state reached so far.
\<close>

definition download ::
  "env \<Rightarrow> string \<Rightarrow> string \<Rightarrow> string \<Rightarrow> build_state \<Rightarrow> (image_error + unit) \<times> build_state"
where
  "download e url filename localFilePath st =
     (let st1 = st\<lparr>console := console st @ [Downloading url],
                    fetched := fetched st @ [url]\<rparr>
      in case fetch e (length (fetched st)) url of
           None \<Rightarrow> (Inl FetchRejected, st1)
         | Some resp \<Rightarrow>
             if \<not> ok resp then (Inl (FetchNotOk (statusText resp)), st1)
             else
               (case arrayBuffer resp of
                  None \<Rightarrow> (Inl BodyRejected, st1)
                | Some buffer \<Rightarrow>
                    (case imagemin_buffer e buffer of
                       None \<Rightarrow> (Inl ImageminRejected, st1)
                     | Some compressedBuffer \<Rightarrow>
                         (case writeFileSync (os_denied e) (publicDir st1) filename
                                 compressedBuffer of
                            Inl err \<Rightarrow> (Inl (WriteFailed err), st1)
                          | Inr d' \<Rightarrow>
                              (Inr (),
                               st1\<lparr>publicDir := d',
                                   writes := writes st1 @ [localFilePath],
                                   console := console st1 @ [SavedTo localFilePath]\<rparr>)))))"

text \<open>The \<open>try\<close> block: the new text, or the error that was thrown.\<close>

definition try_block ::
  "env \<Rightarrow> bool \<Rightarrow> string \<Rightarrow> img_match \<Rightarrow> string \<Rightarrow> build_state
     \<Rightarrow> (image_error + string) \<times> build_state"
where
  "try_block e withLiveReload imageDir m processedMarkdown st =
     (case url_pathname e (remoteUrl m) of
        None \<Rightarrow> (Inl InvalidURL, st)
      | Some pathname \<Rightarrow>
          (let filename = basename pathname;
               localFilePath = path_join imageDir filename;
               st1 = st\<lparr>allUsedImages := insert localFilePath (allUsedImages st)\<rparr>;
               r = (if \<not> existsSync (publicDir st1) filename
                    then download e (remoteUrl m) filename localFilePath st1
                    else (Inr (), st1))
           in case fst r of
                Inl err \<Rightarrow> (Inl err, snd r)
              | Inr u \<Rightarrow>
                  (let webPath = (if withLiveReload
                                  then ''http://localhost:'' @ PORT @ ''/'' @ filename
                                  else ''/'' @ filename);
                       newImageTag = ''!['' @ altText m @ '']('' @ webPath @ '')''
                   in (Inr (js_replace (fullMatch m) newImageTag processedMarkdown), snd r))))"

text \<open>
  One turn of \<open>for (const match of matches)\<close>: the \<open>catch\<close> clause writes the error to
  the console and the loop goes on with the text as it was.
\<close>

definition loop_body ::
  "env \<Rightarrow> bool \<Rightarrow> string \<Rightarrow> string \<times> build_state \<Rightarrow> img_match \<Rightarrow> string \<times> build_state"
where
  "loop_body e withLiveReload imageDir acc m =
     (if remoteUrl m = [] then acc
      else
        (let r = try_block e withLiveReload imageDir m (fst acc) (snd acc) in
         case fst r of
           Inl err \<Rightarrow>
             (fst acc,
              (snd r)\<lparr>console := console (snd r) @ [ErrorProcessing (remoteUrl m) err]\<rparr>)
         | Inr processedMarkdown \<Rightarrow> (processedMarkdown, snd r)))"

definition process_matches ::
  "env \<Rightarrow> bool \<Rightarrow> string \<Rightarrow> img_match list \<Rightarrow> string \<times> build_state \<Rightarrow> string \<times> build_state"
where
  "process_matches e withLiveReload imageDir matches acc =
     foldl (loop_body e withLiveReload imageDir) acc matches"

definition processMarkdownImages ::
  "env \<Rightarrow> string \<Rightarrow> string \<Rightarrow> bool \<Rightarrow> build_state \<Rightarrow> string \<times> build_state"
where
  "processMarkdownImages e imageDir markdown withLiveReload st =
     process_matches e withLiveReload imageDir (matchAll markdown) (markdown, st)"

text \<open>
  What any number of turns of the loop can do to the state, as a relation between the
  state before and the state after: files are written only under distinct non-empty
  names that \<open>existsSync\<close> did not find before and finds afterwards, and each is logged
  in \<open>writes\<close>; what \<open>existsSync\<close> found before is left as it was; \<open>fetch\<close> is called
  only for addresses whose cache file was missing before; and \<open>allUsedImages\<close> only
  grows.
\<close>

definition effect :: "env \<Rightarrow> string \<Rightarrow> build_state \<Rightarrow> build_state \<Rightarrow> bool" where
  "effect e dir st st' \<longleftrightarrow>
     (\<exists>neww newf.
        fetched st' = fetched st @ newf \<and>
        writes st' = writes st @ map (path_join dir) neww \<and>
        allUsedImages st \<subseteq> allUsedImages st' \<and>
        distinct neww \<and>
        (\<forall>n \<in> set neww. n \<noteq> [] \<and> \<not> existsSync (publicDir st) n \<and>
                          existsSync (publicDir st') n) \<and>
        (\<forall>n. existsSync (publicDir st) n \<longrightarrow>
               map_of (publicDir st') n = map_of (publicDir st) n) \<and>
        (\<forall>u \<in> set newf. \<exists>pn. url_pathname e u = Some pn \<and>
                                \<not> existsSync (publicDir st) (basename pn)))"

section \<open>The development loop: \<open>debounce\<close>, \<open>handleRebuild\<close>, \<open>triggerReload\<close>\<close>

text \<open>
  The event loop of the development server, as a machine over a clock in milliseconds.
  The closure of \<open>debounce\<close> owns one variable, \<open>timeout\<close>; it is \<open>Some t\<close> while a
  timer is armed that expires at time \<open>t\<close>. \<open>running\<close> counts the executions of the
  debounced function whose \<open>await compile(true)\<close> has not settled, \<open>executions\<close> counts
  all executions that have started. A client is a response object of the
  \<open>/__livereload__\<close> channel: its \<open>writableEnded\<close> flag and the chunks written to it.
\<close>

record client =
  writableEnded :: bool
  sent :: "string list"

record dev_state =
  now :: nat
  timeout :: "nat option"
  running :: nat
  executions :: nat
  liveReloadClients :: "client list"

definition waitFor :: nat where
  \<comment> \<open>the second argument of \<open>debounce(..., 100)\<close>\<close>
  "waitFor = 100"

definition triggerReload :: "client list \<Rightarrow> client list" where
  "triggerReload clients =
     map (\<lambda>res. if \<not> writableEnded res
                then res\<lparr>sent := sent res @ [''data: reload'' @ [CHR 0x0A, CHR 0x0A]]\<rparr>
                else res) clients"

text \<open>
  A call of \<open>handleRebuild()\<close>, which is the function \<open>debounce\<close> returned:
  \<open>clearTimeout(timeout); timeout = setTimeout(..., waitFor)\<close>.
\<close>

definition handleRebuild :: "dev_state \<Rightarrow> dev_state" where
  "handleRebuild s = s\<lparr>timeout := Some (now s + waitFor)\<rparr>"

text \<open>
  The timer expires and runs \<open>func(...args)\<close>: the \<open>async\<close> function starts and stays in
  flight until \<open>compile(true)\<close> settles.
\<close>

definition timer_fires :: "dev_state \<Rightarrow> dev_state" where
  "timer_fires s =
     s\<lparr>timeout := None, executions := executions s + 1, running := running s + 1\<rparr>"

text \<open>
  \<open>await compile(true)\<close> settles in one execution: when it resolved, \<open>triggerReload()\<close>
  runs; when it rejected, the \<open>catch\<close> clause only prints the error.
\<close>

definition rebuild_settles :: "bool \<Rightarrow> dev_state \<Rightarrow> dev_state" where
  "rebuild_settles resolved s =
     (if running s = 0 then s
      else if resolved
        then s\<lparr>running := running s - 1,
               liveReloadClients := triggerReload (liveReloadClients s)\<rparr>
        else s\<lparr>running := running s - 1\<rparr>)"

text \<open>
  The events: the \<open>fs.watch\<close> callback with a file name (it calls \<open>handleRebuild()\<close>),
  the passing of \<open>d\<close> milliseconds in which nothing else happens (an armed timer that
  expires in that span fires), and the settling of a pass in flight.
\<close>

datatype event = Change | Elapse nat | Settle bool

fun dev_step :: "dev_state \<Rightarrow> event \<Rightarrow> dev_state" where
  "dev_step s Change = handleRebuild s"
| "dev_step s (Elapse d) =
     (case timeout s of
        None \<Rightarrow> s\<lparr>now := now s + d\<rparr>
      | Some t \<Rightarrow>
          if t \<le> now s + d then (timer_fires s)\<lparr>now := now s + d\<rparr>
          else s\<lparr>now := now s + d\<rparr>)"
| "dev_step s (Settle resolved) = rebuild_settles resolved s"

definition run :: "dev_state \<Rightarrow> event list \<Rightarrow> dev_state" where
  "run s es = foldl dev_step s es"

text \<open>
  A burst of change notifications: the first one, and one more after each gap (in
  milliseconds).
\<close>

definition burst :: "nat list \<Rightarrow> event list" where
  "burst gaps = Change # concat (map (\<lambda>g. [Elapse g, Change]) gaps)"

text \<open>The executions that are queued: one when a timer is armed, else none.\<close>

definition pending :: "dev_state \<Rightarrow> nat" where
  "pending s = (if timeout s = None then 0 else 1)"

section \<open>Orphan collection: what the sweep does to the directory\<close>

lemma map_of_filter_neq:
  "map_of (filter (\<lambda>e. fst e \<noteq> k) d) n = (if n = k then None else map_of d n)"
  by (induction d) auto

lemma unlinkSync_Inr:
  "unlinkSync denied d k = Inr d' \<Longrightarrow>
     (\<exists>nd. map_of d k = Some nd \<and> \<not> isDirectory nd) \<and> k \<notin> denied \<and>
     d' = filter (\<lambda>e. fst e \<noteq> k) d"
  by (auto simp: unlinkSync_def split: option.splits if_splits)

lemma sweep_skip:
  "\<not> (is_image f \<and> path_join dir f \<notin> used) \<Longrightarrow>
   sweep denied dir used (f # rest) d = sweep denied dir used rest d"
  by auto

lemma sweep_unlinked:
  "is_image f \<Longrightarrow> path_join dir f \<notin> used \<Longrightarrow> unlinkSync denied d f = Inr d' \<Longrightarrow>
   sweep denied dir used (f # rest) d = sweep denied dir used rest d'"
  by simp

lemma sweep_thrown:
  "is_image f \<Longrightarrow> path_join dir f \<notin> used \<Longrightarrow> unlinkSync denied d f = Inl e \<Longrightarrow>
   sweep denied dir used (f # rest) d = (Inl e, d)"
  by simp

text \<open>
  Every name resolves after the sweep as before, unless the sweep removed it; and it
  removes only listed names of entries that are not directories, carry an image
  extension and are not in \<open>allUsedImages\<close>.
\<close>

lemma sweep_lookup:
  "map_of (snd (sweep denied dir used ns d)) n = map_of d n \<or>
   (map_of (snd (sweep denied dir used ns d)) n = None \<and>
    (\<exists>nd. map_of d n = Some nd \<and> \<not> isDirectory nd) \<and>
    is_image n \<and> path_join dir n \<notin> used \<and> n \<in> set ns)"
proof (induction ns arbitrary: d)
  case Nil
  show ?case by simp
next
  case (Cons f rest)
  show ?case
  proof (cases "is_image f \<and> path_join dir f \<notin> used")
    case False
    show ?thesis using Cons.IH [of d] unfolding sweep_skip [OF False] by auto
  next
    case True
    show ?thesis
    proof (cases "unlinkSync denied d f")
      case (Inl e)
      then show ?thesis using True by simp
    next
      case (Inr d')
      from unlinkSync_Inr [OF Inr] obtain nd where
        nd: "map_of d f = Some nd" "\<not> isDirectory nd"
        and d': "d' = filter (\<lambda>e. fst e \<noteq> f) d"
        by blast
      have eq: "sweep denied dir used (f # rest) d = sweep denied dir used rest d'"
        using True Inr by simp
      show ?thesis
        using Cons.IH [of d'] True nd unfolding eq d' map_of_filter_neq
        by (auto split: if_splits)
    qed
  qed
qed

lemma sweep_deleted:
  "fst (sweep denied dir used ns d) = Inr () \<Longrightarrow> n \<in> set ns \<Longrightarrow> is_image n \<Longrightarrow>
   path_join dir n \<notin> used \<Longrightarrow> map_of (snd (sweep denied dir used ns d)) n = None"
proof (induction ns arbitrary: d)
  case Nil
  then show ?case by simp
next
  case (Cons f rest)
  show ?case
  proof (cases "is_image f \<and> path_join dir f \<notin> used")
    case False
    from False Cons.prems have "n \<in> set rest" by auto
    then show ?thesis
      using Cons.IH [of d] Cons.prems unfolding sweep_skip [OF False] by simp
  next
    case True
    show ?thesis
    proof (cases "unlinkSync denied d f")
      case (Inl e)
      then show ?thesis using True Cons.prems by simp
    next
      case (Inr d')
      from unlinkSync_Inr [OF Inr] have d': "d' = filter (\<lambda>e. fst e \<noteq> f) d"
        by blast
      have eq: "sweep denied dir used (f # rest) d = sweep denied dir used rest d'"
        using True Inr by simp
      show ?thesis
      proof (cases "n = f")
        case True
        then have "map_of d' n = None" by (simp add: d' map_of_filter_neq)
        then show ?thesis
          using sweep_lookup [of denied dir used rest d' n] unfolding eq by auto
      next
        case False
        then have "n \<in> set rest" using Cons.prems by auto
        then show ?thesis using Cons.IH [of d'] Cons.prems unfolding eq by simp
      qed
    qed
  qed
qed

lemma sweep_stops:
  "fst (sweep denied dir used ns1 d) = Inr () \<Longrightarrow> is_image n \<Longrightarrow>
   path_join dir n \<notin> used \<Longrightarrow>
   unlinkSync denied (snd (sweep denied dir used ns1 d)) n = Inl e \<Longrightarrow>
   sweep denied dir used (ns1 @ n # ns2) d = (Inl e, snd (sweep denied dir used ns1 d))"
proof (induction ns1 arbitrary: d)
  case Nil
  then show ?case by simp
next
  case (Cons f rest)
  show ?case
  proof (cases "is_image f \<and> path_join dir f \<notin> used")
    case False
    show ?thesis
      using Cons.IH [of d] Cons.prems unfolding append_Cons sweep_skip [OF False] by simp
  next
    case True
    show ?thesis
    proof (cases "unlinkSync denied d f")
      case (Inl e')
      then show ?thesis using True Cons.prems by simp
    next
      case (Inr d')
      have eq: "\<And>xs. sweep denied dir used (f # xs) d = sweep denied dir used xs d'"
        using True Inr by simp
      show ?thesis using Cons.IH [of d'] Cons.prems unfolding append_Cons eq by simp
    qed
  qed
qed

lemma sweep_completes:
  "distinct ns \<Longrightarrow>
   (\<forall>n \<in> set ns. is_image n \<and> path_join dir n \<notin> used \<longrightarrow>
      (\<exists>nd. map_of d n = Some nd \<and> \<not> isDirectory nd) \<and> n \<notin> denied) \<Longrightarrow>
   fst (sweep denied dir used ns d) = Inr ()"
proof (induction ns arbitrary: d)
  case Nil
  then show ?case by simp
next
  case (Cons f rest)
  show ?case
  proof (cases "is_image f \<and> path_join dir f \<notin> used")
    case False
    show ?thesis using Cons.IH [of d] Cons.prems unfolding sweep_skip [OF False] by simp
  next
    case True
    with Cons.prems obtain nd where nd: "map_of d f = Some nd" "\<not> isDirectory nd"
      and ok: "f \<notin> denied"
      by auto
    let ?d' = "filter (\<lambda>e. fst e \<noteq> f) d"
    have u: "unlinkSync denied d f = Inr ?d'"
      using nd ok by (simp add: unlinkSync_def)
    have eq: "sweep denied dir used (f # rest) d = sweep denied dir used rest ?d'"
      using True u by simp
    have "\<forall>n \<in> set rest. is_image n \<and> path_join dir n \<notin> used \<longrightarrow>
            (\<exists>nd. map_of ?d' n = Some nd \<and> \<not> isDirectory nd) \<and> n \<notin> denied"
      using Cons.prems by (auto simp: map_of_filter_neq)
    then show ?thesis using Cons.IH [of ?d'] Cons.prems unfolding eq by simp
  qed
qed

text \<open>
  Claim C4, as the code has it. Let the collector run on an existing output directory
  \<open>d\<close> and end with outcome \<open>r\<close> and directory \<open>d'\<close>. When it ran to completion
  (\<open>r = Inr ()\<close>, no deletion threw), every entry of \<open>d\<close> that is listed under the name it
  has (a name that is valid UTF-8), carries an image extension and whose path is not in
  the touched set is gone from \<open>d'\<close>. Whatever the outcome, every name whose path is in
  the touched set, and every name without an image extension, resolves in \<open>d'\<close> exactly
  as in \<open>d\<close>. On a missing output directory the collector returns at once and nothing
  changes. It runs to completion whenever the names of \<open>d\<close> are distinct and valid, and no
  orphaned image entry is a directory or refused by the operating system.
\<close>

theorem cleanupOrphanedImages_contract:
  assumes "cleanupOrphanedImages decode denied imageDir used (Some d) = (r, fs')"
  shows "cleanupOrphanedImages decode denied imageDir used None = (Inr (), None) \<and>
    (\<exists>d'. fs' = Some d' \<and>
       (\<forall>f nd. r = Inr () \<and> map_of d f = Some nd \<and> decode f = f \<and> is_image f \<and>
                path_join imageDir f \<notin> used \<longrightarrow> map_of d' f = None) \<and>
       (\<forall>f. path_join imageDir f \<in> used \<longrightarrow> map_of d' f = map_of d f) \<and>
       (\<forall>f. \<not> is_image f \<longrightarrow> map_of d' f = map_of d f)) \<and>
    (distinct (map fst d) \<and>
     (\<forall>(f, nd) \<in> set d. decode f = f \<and>
         (is_image f \<and> path_join imageDir f \<notin> used \<longrightarrow>
            \<not> isDirectory nd \<and> f \<notin> denied)) \<longrightarrow> r = Inr ())"
proof -
  let ?ns = "readdirSync decode d"
  let ?sw = "sweep denied imageDir used ?ns d"
  from assms have r: "r = fst ?sw" and fs': "fs' = Some (snd ?sw)"
    by (simp_all add: cleanupOrphanedImages_def Let_def)
  have none: "cleanupOrphanedImages decode denied imageDir used None = (Inr (), None)"
    by (simp add: cleanupOrphanedImages_def)
  have gone: "map_of (snd ?sw) f = None"
    if "r = Inr ()" "map_of d f = Some nd" "decode f = f" "is_image f"
      "path_join imageDir f \<notin> used"
    for f nd
  proof -
    from that(2) have "(f, nd) \<in> set d" by (rule map_of_SomeD)
    then have "decode f \<in> set ?ns"
      unfolding readdirSync_def by force
    with that(3) have "f \<in> set ?ns" by simp
    with that r show ?thesis by (simp add: sweep_deleted)
  qed
  have kept: "map_of (snd ?sw) f = map_of d f"
    if "path_join imageDir f \<in> used \<or> \<not> is_image f" for f
    using sweep_lookup [of denied imageDir used ?ns d f] that by auto
  have completes: "r = Inr ()"
    if dist: "distinct (map fst d)"
      and good: "\<forall>(f, nd) \<in> set d. decode f = f \<and>
         (is_image f \<and> path_join imageDir f \<notin> used \<longrightarrow>
            \<not> isDirectory nd \<and> f \<notin> denied)"
  proof -
    from good have "map (\<lambda>e. decode (fst e)) d = map fst d"
      by (intro map_cong) auto
    then have ns: "?ns = map fst d" by (simp add: readdirSync_def)
    have "\<forall>n \<in> set (map fst d). is_image n \<and> path_join imageDir n \<notin> used \<longrightarrow>
            (\<exists>nd. map_of d n = Some nd \<and> \<not> isDirectory nd) \<and> n \<notin> denied"
    proof (intro ballI impI)
      fix n assume n: "n \<in> set (map fst d)"
        and img: "is_image n \<and> path_join imageDir n \<notin> used"
      from n obtain nd where mem: "(n, nd) \<in> set d" by auto
      with dist have "map_of d n = Some nd" by simp
      moreover from good mem img have "\<not> isDirectory nd \<and> n \<notin> denied" by auto
      ultimately show "(\<exists>nd. map_of d n = Some nd \<and> \<not> isDirectory nd) \<and> n \<notin> denied"
        by blast
    qed
    with dist show ?thesis unfolding r ns by (intro sweep_completes) auto
  qed
  show ?thesis
    using none fs' gone kept completes by blast
qed

text \<open>
  The scenario of the specification: one referenced image, one orphan (with a capital
  extension) and one page.
\<close>

theorem cleanupOrphanedImages_contract_witness:
  "cleanupOrphanedImages id {} ''/site/public'' {''/site/public/logo.png''}
     (Some [(''logo.png'', File ''L''), (''old.JPG'', File ''O''), (''index.html'', File ''H'')])
   = (Inr (), Some [(''logo.png'', File ''L''), (''index.html'', File ''H'')]) \<and>
   is_image ''old.JPG'' \<and> \<not> is_image ''index.html'' \<and>
   map_of [(''logo.png'', File ''L''), (''index.html'', File ''H'')] ''old.JPG'' = None \<and>
   map_of [(''logo.png'', File ''L''), (''index.html'', File ''H'')] ''logo.png'' = Some (File ''L'') \<and>
   map_of [(''logo.png'', File ''L''), (''index.html'', File ''H'')] ''index.html'' = Some (File ''H'')"
proof -
  have run: "cleanupOrphanedImages id {} ''/site/public'' {''/site/public/logo.png''}
     (Some [(''logo.png'', File ''L''), (''old.JPG'', File ''O''), (''index.html'', File ''H'')])
   = (Inr (), Some [(''logo.png'', File ''L''), (''index.html'', File ''H'')])"
    by code_simp
  have img: "is_image ''old.JPG''" "\<not> is_image ''index.html''"
    by code_simp+
  have used: "path_join ''/site/public'' ''old.JPG'' \<notin> {''/site/public/logo.png''}"
    "path_join ''/site/public'' ''logo.png'' \<in> {''/site/public/logo.png''}"
    by (simp_all add: path_join_def)
  from cleanupOrphanedImages_contract [OF run] img used run
  show ?thesis by simp
qed

text \<open>
  Claim C4 as stated fails. The source directory \<open>md/shots.png\<close> has its mirror
  \<open>public/shots.png\<close>, a directory with an image extension; \<open>unlinkSync\<close> throws on it,
  and after the collector has run the orphaned image \<open>stale.gif\<close>, a file directly in
  the output directory whose path is not in the touched set, is still there.
\<close>

theorem cleanup_orphan_survives_counterexample:
  "cleanupOrphanedImages id {} ''/site/public'' {}
     (Some [(''shots.png'', Dir [(''index.html'', File ''H'')]), (''stale.gif'', File ''S'')])
   = (Inl EISDIR,
      Some [(''shots.png'', Dir [(''index.html'', File ''H'')]), (''stale.gif'', File ''S'')])"
  by code_simp

lemma unlinkSync_Inl_lookup:
  "map_of d1 n = map_of d2 n \<Longrightarrow> unlinkSync denied d1 n = Inl e \<Longrightarrow>
   unlinkSync denied d2 n = Inl e"
  by (auto simp: unlinkSync_def split: option.splits if_splits)

text \<open>
  Claim C5, as the code has it. A failed deletion is not caught inside the collector.
  When \<open>unlinkSync\<close> throws at the orphaned image \<open>n\<close>, the collector ends with that
  error; the directory is what the sweep of the names listed before \<open>n\<close> left: the
  orphaned images among them are gone, and \<open>n\<close> and every name listed after it are
  neither examined nor removed. The exception leaves
  \<open>cleanupOrphanedImages\<close>, which \<open>compile\<close> calls outside any \<open>try\<close>.
\<close>

theorem cleanup_stops_at_failed_delete:
  assumes "readdirSync decode d = ns1 @ n # ns2"
    and "n \<notin> set ns1"
    and "fst (sweep denied imageDir used ns1 d) = Inr ()"
    and "is_image n"
    and "path_join imageDir n \<notin> used"
    and "unlinkSync denied d n = Inl e"
  shows "\<exists>d'. cleanupOrphanedImages decode denied imageDir used (Some d) = (Inl e, Some d') \<and>
           d' = snd (sweep denied imageDir used ns1 d) \<and>
           (\<forall>k \<in> set ns1. is_image k \<and> path_join imageDir k \<notin> used
                \<longrightarrow> map_of d' k = None) \<and>
           (\<forall>k. k \<notin> set ns1 \<longrightarrow> map_of d' k = map_of d k)"
proof -
  let ?d' = "snd (sweep denied imageDir used ns1 d)"
  have gone: "map_of ?d' k = None"
    if "k \<in> set ns1" "is_image k \<and> path_join imageDir k \<notin> used" for k
    using sweep_deleted [OF assms(3)] that by blast
  have same: "map_of ?d' k = map_of d k" if "k \<notin> set ns1" for k
    using sweep_lookup [of denied imageDir used ns1 d k] that by auto
  from same [OF assms(2)] assms(6) have "unlinkSync denied ?d' n = Inl e"
    by (metis unlinkSync_Inl_lookup)
  with assms(3,4,5)
  have "sweep denied imageDir used (ns1 @ n # ns2) d = (Inl e, ?d')"
    by (rule sweep_stops)
  then have "cleanupOrphanedImages decode denied imageDir used (Some d) = (Inl e, Some ?d')"
    using assms(1) by (simp add: cleanupOrphanedImages_def Let_def)
  with gone same show ?thesis by blast
qed

text \<open>
  A directory that carries an image extension stops the sweep: the orphan listed before
  it is gone, the one listed after it stays.
\<close>

theorem cleanup_stops_at_failed_delete_witness:
  "cleanupOrphanedImages id {} ''/site/public'' {}
     (Some [(''old.png'', File ''O''), (''shots.png'', Dir [(''index.html'', File ''H'')]),
            (''stale.gif'', File ''S'')])
   = (Inl EISDIR, Some [(''shots.png'', Dir [(''index.html'', File ''H'')]),
                        (''stale.gif'', File ''S'')])"
proof -
  let ?d = "[(''old.png'', File ''O''), (''shots.png'', Dir [(''index.html'', File ''H'')]),
             (''stale.gif'', File ''S'')]"
  have 1: "readdirSync id ?d = [''old.png''] @ ''shots.png'' # [''stale.gif'']"
    by (simp add: readdirSync_def)
  have 2: "''shots.png'' \<notin> set [''old.png'']" by simp
  have 3: "sweep {} ''/site/public'' {} [''old.png''] ?d
             = (Inr (), [(''shots.png'', Dir [(''index.html'', File ''H'')]),
                         (''stale.gif'', File ''S'')])"
    by code_simp
  have 4: "is_image ''shots.png''" by code_simp
  have 5: "path_join ''/site/public'' ''shots.png'' \<notin> {}" by simp
  have 6: "unlinkSync {} ?d ''shots.png'' = Inl EISDIR" by code_simp
  from cleanup_stops_at_failed_delete [OF 1 2 _ 4 5 6] 3
  show ?thesis by simp
qed

text \<open>
  Claim C5 as stated fails: with two orphaned images of which the first cannot be
  removed, the collector ends with the error and the second orphan is still there.
\<close>

theorem cleanup_failed_delete_counterexample:
  "cleanupOrphanedImages id {''a.png''} ''/site/public'' {}
     (Some [(''a.png'', File ''A''), (''b.png'', File ''B'')])
   = (Inl EACCES, Some [(''a.png'', File ''A''), (''b.png'', File ''B'')])"
  by code_simp

text \<open>
  Claim C10. The collector lists the output root only. Every path of two or more
  segments, that is every file or directory inside a subdirectory of the output root,
  resolves after the collector exactly as before it: whatever the touched set holds,
  whatever the extension, and whether the collector returned or threw.
\<close>

theorem cleanup_leaves_subdirectories:
  assumes "cleanupOrphanedImages decode denied imageDir used (Some d) = (r, fs')"
  shows "\<exists>d'. fs' = Some d' \<and>
           (\<forall>n m ms. lookup_path d' (n # m # ms) = lookup_path d (n # m # ms))"
proof -
  let ?d' = "snd (sweep denied imageDir used (readdirSync decode d) d)"
  from assms have fs': "fs' = Some ?d'"
    by (simp add: cleanupOrphanedImages_def Let_def)
  have "lookup_path ?d' (n # m # ms) = lookup_path d (n # m # ms)" for n m ms
    using sweep_lookup [of denied imageDir used "readdirSync decode d" d n] by auto
  with fs' show ?thesis by blast
qed

text \<open>
  An untouched image inside \<open>guide\<close> survives the sweep that removes an untouched image
  of the root.
\<close>

theorem cleanup_leaves_subdirectories_witness:
  "cleanupOrphanedImages id {} ''/site/public'' {}
     (Some [(''guide'', Dir [(''diagram.png'', File ''D'')]), (''stale.png'', File ''S'')])
   = (Inr (), Some [(''guide'', Dir [(''diagram.png'', File ''D'')])]) \<and>
   lookup_path [(''guide'', Dir [(''diagram.png'', File ''D'')])] [''guide'', ''diagram.png'']
   = Some (File ''D'')"
proof -
  have run: "cleanupOrphanedImages id {} ''/site/public'' {}
     (Some [(''guide'', Dir [(''diagram.png'', File ''D'')]), (''stale.png'', File ''S'')])
   = (Inr (), Some [(''guide'', Dir [(''diagram.png'', File ''D'')])])"
    by code_simp
  from cleanup_leaves_subdirectories [OF run] run
  show ?thesis by simp
qed

section \<open>The development loop: bursts, executions and broadcasts\<close>

lemma run_Nil: "run s [] = s"
  by (simp add: run_def)

lemma run_Cons: "run s (e # es) = run (dev_step s e) es"
  by (simp add: run_def)

lemma run_append: "run s (es @ fs) = run (run s es) fs"
  by (simp add: run_def)

lemma gap_then_change:
  assumes "timeout s = Some (now s + waitFor)" and "g < waitFor"
  shows "run s [Elapse g, Change]
         = s\<lparr>now := now s + g, timeout := Some (now s + g + waitFor)\<rparr>"
  using assms by (simp add: run_Cons run_Nil handleRebuild_def)

lemma run_gaps:
  "timeout s = Some (now s + waitFor) \<Longrightarrow> \<forall>g \<in> set gaps. g < waitFor \<Longrightarrow>
   run s (concat (map (\<lambda>g. [Elapse g, Change]) gaps))
   = s\<lparr>now := now s + sum_list gaps, timeout := Some (now s + sum_list gaps + waitFor)\<rparr>"
proof (induction gaps arbitrary: s)
  case Nil
  then show ?case by (simp add: run_Nil)
next
  case (Cons g gaps)
  let ?s1 = "s\<lparr>now := now s + g, timeout := Some (now s + g + waitFor)\<rparr>"
  have step: "run s [Elapse g, Change] = ?s1"
    using Cons.prems by (intro gap_then_change) auto
  have "run s (concat (map (\<lambda>g. [Elapse g, Change]) (g # gaps)))
        = run (run s [Elapse g, Change]) (concat (map (\<lambda>g. [Elapse g, Change]) gaps))"
    by (simp add: run_def)
  also have "\<dots> = run ?s1 (concat (map (\<lambda>g. [Elapse g, Change]) gaps))"
    by (simp only: step)
  also have "\<dots> = ?s1\<lparr>now := now ?s1 + sum_list gaps,
                        timeout := Some (now ?s1 + sum_list gaps + waitFor)\<rparr>"
    using Cons.prems by (intro Cons.IH) auto
  finally show ?case by (simp add: add.assoc)
qed

lemma run_burst:
  assumes "\<forall>g \<in> set gaps. g < waitFor"
  shows "run s (burst gaps)
         = s\<lparr>now := now s + sum_list gaps, timeout := Some (now s + sum_list gaps + waitFor)\<rparr>"
proof -
  let ?s1 = "handleRebuild s"
  have "run s (burst gaps) = run ?s1 (concat (map (\<lambda>g. [Elapse g, Change]) gaps))"
    by (simp add: burst_def run_Cons)
  also have "\<dots> = ?s1\<lparr>now := now ?s1 + sum_list gaps,
                        timeout := Some (now ?s1 + sum_list gaps + waitFor)\<rparr>"
    using assms by (intro run_gaps) (auto simp: handleRebuild_def)
  finally show ?thesis by (simp add: handleRebuild_def)
qed

lemma run_burst_quiet:
  assumes "\<forall>g \<in> set gaps. g < waitFor" and "waitFor \<le> d"
  shows "run s (burst gaps @ [Elapse d])
         = s\<lparr>now := now s + sum_list gaps + d, timeout := None,
               executions := executions s + 1, running := running s + 1\<rparr>"
  using assms(2) unfolding run_append run_burst [OF assms(1)]
  by (simp add: run_Cons run_Nil timer_fires_def)

lemma triggerReload_nth:
  "i < length cs \<Longrightarrow>
   triggerReload cs ! i =
     (if writableEnded (cs ! i) then cs ! i
      else (cs ! i)\<lparr>sent := sent (cs ! i) @ [''data: reload'' @ [CHR 0x0A, CHR 0x0A]]\<rparr>)"
  by (simp add: triggerReload_def)

text \<open>
  Claim C2. A burst of \<open>N = length gaps + 1\<close> change notifications, each less than
  \<open>waitFor\<close> milliseconds after the one before, followed by a quiet span of at least
  \<open>waitFor\<close> milliseconds, starts exactly one execution of the rebuild, from whatever
  state the burst begins in, and leaves no timer armed. When that rebuild settles, each
  client of the list has received one more \<open>data: reload\<close> chunk if and only if the build
  resolved and the client's \<open>writableEnded\<close> is false; after a rejected build no client
  has received anything.
\<close>

theorem burst_one_rebuild_one_broadcast:
  assumes "\<forall>g \<in> set gaps. g < waitFor" and "waitFor \<le> d"
  shows "executions (run s (burst gaps @ [Elapse d])) = executions s + 1 \<and>
         running (run s (burst gaps @ [Elapse d])) = running s + 1 \<and>
         timeout (run s (burst gaps @ [Elapse d])) = None \<and>
         length (liveReloadClients (run s (burst gaps @ [Elapse d, Settle resolved])))
           = length (liveReloadClients s) \<and>
         (\<forall>i < length (liveReloadClients s).
            writableEnded (liveReloadClients (run s (burst gaps @ [Elapse d, Settle resolved])) ! i)
              = writableEnded (liveReloadClients s ! i) \<and>
            sent (liveReloadClients (run s (burst gaps @ [Elapse d, Settle resolved])) ! i)
              = (if resolved \<and> \<not> writableEnded (liveReloadClients s ! i)
                 then sent (liveReloadClients s ! i) @ [''data: reload'' @ [CHR 0x0A, CHR 0x0A]]
                 else sent (liveReloadClients s ! i)))"
proof -
  let ?q = "run s (burst gaps @ [Elapse d])"
  have q: "?q = s\<lparr>now := now s + sum_list gaps + d, timeout := None,
               executions := executions s + 1, running := running s + 1\<rparr>"
    using assms by (rule run_burst_quiet)
  have split: "run s (burst gaps @ [Elapse d, Settle resolved]) = rebuild_settles resolved ?q"
    using run_append [of s "burst gaps @ [Elapse d]" "[Settle resolved]"]
    by (simp add: run_Cons run_Nil)
  have cl: "liveReloadClients (rebuild_settles resolved ?q)
            = (if resolved then triggerReload (liveReloadClients s) else liveReloadClients s)"
    unfolding q by (simp add: rebuild_settles_def)
  have len: "length (triggerReload (liveReloadClients s)) = length (liveReloadClients s)"
    by (simp add: triggerReload_def)
  show ?thesis
    unfolding split cl
    using q len by (auto simp: triggerReload_nth)
qed

text \<open>Four notifications 10, 20 and 99 ms apart; one open client and one ended.\<close>

theorem burst_one_rebuild_one_broadcast_witness:
  "executions (run \<lparr>now = 0, timeout = None, running = 0, executions = 0,
         liveReloadClients = [\<lparr>writableEnded = False, sent = []\<rparr>,
                              \<lparr>writableEnded = True, sent = []\<rparr>]\<rparr>
       (burst [10, 20, 99] @ [Elapse 100])) = 1 \<and>
   map sent (liveReloadClients (run \<lparr>now = 0, timeout = None, running = 0, executions = 0,
         liveReloadClients = [\<lparr>writableEnded = False, sent = []\<rparr>,
                              \<lparr>writableEnded = True, sent = []\<rparr>]\<rparr>
       (burst [10, 20, 99] @ [Elapse 100, Settle True])))
     = [[''data: reload'' @ [CHR 0x0A, CHR 0x0A]], []] \<and>
   map sent (liveReloadClients (run \<lparr>now = 0, timeout = None, running = 0, executions = 0,
         liveReloadClients = [\<lparr>writableEnded = False, sent = []\<rparr>,
                              \<lparr>writableEnded = True, sent = []\<rparr>]\<rparr>
       (burst [10, 20, 99] @ [Elapse 100, Settle False])))
     = [[], []]"
proof -
  let ?s = "\<lparr>now = 0, timeout = None, running = 0, executions = 0,
         liveReloadClients = [\<lparr>writableEnded = False, sent = []\<rparr>,
                              \<lparr>writableEnded = True, sent = []\<rparr>]\<rparr>"
  have gaps: "\<forall>g \<in> set [10, 20, 99]. g < waitFor" by (simp add: waitFor_def)
  have quiet: "waitFor \<le> 100" by (simp add: waitFor_def)
  have e: "executions (run ?s (burst [10, 20, 99] @ [Elapse 100])) = 1"
    using burst_one_rebuild_one_broadcast [OF gaps quiet, of ?s True] by simp
  have t: "map sent (liveReloadClients (run ?s (burst [10, 20, 99] @ [Elapse 100, Settle True])))
     = [[''data: reload'' @ [CHR 0x0A, CHR 0x0A]], []]"
    by code_simp
  have f: "map sent (liveReloadClients (run ?s (burst [10, 20, 99] @ [Elapse 100, Settle False])))
     = [[], []]"
    by code_simp
  from e t f show ?thesis by blast
qed

lemma step_bound:
  "executions (dev_step s e) + pending (dev_step s e)
   \<le> executions s + pending s + (if e = Change then 1 else 0)"
  by (cases e)
     (auto simp: pending_def handleRebuild_def timer_fires_def rebuild_settles_def
           split: option.splits)

lemma run_bound:
  "executions (run s es) + pending (run s es)
   \<le> executions s + pending s + count_list es Change"
proof (induction es arbitrary: s)
  case Nil
  show ?case by (simp add: run_Nil)
next
  case (Cons e es)
  have "executions (run s (e # es)) + pending (run s (e # es))
        \<le> executions (dev_step s e) + pending (dev_step s e) + count_list es Change"
    using Cons.IH [of "dev_step s e"] by (simp add: run_Cons)
  also have "\<dots> \<le> executions s + pending s + (if e = Change then 1 else 0)
                   + count_list es Change"
    using step_bound [of s e] by simp
  finally show ?case by (cases "e = Change") simp_all
qed

text \<open>
  Claim C3, as the code has it. A change notification starts no pass by itself, whether
  or not one is in flight: it changes neither \<open>running\<close> nor \<open>executions\<close> and only sets
  the one timer to expire \<open>waitFor\<close> milliseconds later. Within the window nothing starts.
  Once the window has passed without a further notification the timer starts a pass,
  in addition to those still in flight: \<open>running\<close> grows by one whatever its value. Over
  every sequence of events, the executions started plus the one that may be queued never
  exceed what was there before plus the number of notifications.
\<close>

theorem change_only_rearms_timer:
  "running (dev_step s Change) = running s \<and>
   executions (dev_step s Change) = executions s \<and>
   timeout (dev_step s Change) = Some (now s + waitFor) \<and>
   (\<forall>d. d < waitFor \<longrightarrow> run s [Change, Elapse d]
                             = s\<lparr>now := now s + d, timeout := Some (now s + waitFor)\<rparr>) \<and>
   (\<forall>d. waitFor \<le> d \<longrightarrow> running (run s [Change, Elapse d]) = running s + 1 \<and>
                          executions (run s [Change, Elapse d]) = executions s + 1) \<and>
   (\<forall>es. executions (run s es) + pending (run s es)
            \<le> executions s + pending s + count_list es Change)"
  using run_bound [of s]
  by (auto simp: run_Cons run_Nil handleRebuild_def timer_fires_def)

text \<open>
  With one pass in flight at time 500: 40 ms after a notification only the timer has
  changed; 100 ms after it a second pass is in flight.
\<close>

theorem change_only_rearms_timer_witness:
  "run \<lparr>now = 500, timeout = None, running = 1, executions = 1, liveReloadClients = []\<rparr>
     [Change, Elapse 40]
   = \<lparr>now = 540, timeout = Some 600, running = 1, executions = 1, liveReloadClients = []\<rparr> \<and>
   running (run \<lparr>now = 500, timeout = None, running = 1, executions = 1,
                  liveReloadClients = []\<rparr> [Change, Elapse 100]) = 2"
proof -
  let ?s = "\<lparr>now = 500, timeout = None, running = 1, executions = 1, liveReloadClients = []\<rparr>"
  have a: "(40::nat) < waitFor" and b: "waitFor \<le> (100::nat)"
    by (simp_all add: waitFor_def)
  from change_only_rearms_timer [of ?s] a b show ?thesis
    by (simp add: waitFor_def)
qed

text \<open>
  Claim C3 as stated fails. The first pass starts at 100 ms and has not settled (it
  awaits a download, say) when a notification arrives; 100 ms later the timer starts a
  second pass while the first is still in flight.
\<close>

theorem rebuilds_overlap_counterexample:
  "running (run \<lparr>now = 0, timeout = None, running = 0, executions = 0, liveReloadClients = []\<rparr>
              [Change, Elapse 100, Change, Elapse 100]) = 2"
  by code_simp

section \<open>Navigation: order and directory nodes\<close>

lemma foldl_snoc_map: "foldl (\<lambda>nav x. nav @ [g x]) acc xs = acc @ map g xs"
  by (induction xs arbitrary: acc) auto

lemma foldl_append_concat: "foldl (\<lambda>nav x. nav @ h x) acc xs = acc @ concat (map h xs)"
  by (induction xs arbitrary: acc) auto

lemma buildNavTree_unfold:
  "buildNavTree lc entries pre =
     map (file_item pre) (array_sort (files_compare lc) (filter is_md_file entries)) @
     concat (map (\<lambda>subDir. dir_item subDir
                    (buildNavTree lc (dir_entries (snd subDir)) (pre @ fst subDir @ ''/'')))
               (array_sort (dirs_compare lc) (filter (\<lambda>e. isDirectory (snd e)) entries)))"
  by (subst buildNavTree.simps) (simp add: Let_def foldl_snoc_map foldl_append_concat)

lemma mset_insert_by: "mset (insert_by cmp x ys) = add_mset x (mset ys)"
  by (induction ys) auto

lemma mset_array_sort: "mset (array_sort cmp xs) = mset xs"
  by (induction xs) (auto simp: array_sort_def mset_insert_by)

lemma sorted_insert_by:
  assumes total: "\<forall>a b. cmp a b \<le> 0 \<or> cmp b a \<le> 0"
    and trans: "\<forall>a b c. cmp a b \<le> 0 \<and> cmp b c \<le> 0 \<longrightarrow> cmp a c \<le> 0"
  shows "sorted_wrt (\<lambda>a b. cmp a b \<le> 0) ys \<Longrightarrow>
         sorted_wrt (\<lambda>a b. cmp a b \<le> 0) (insert_by cmp x ys)"
proof (induction ys)
  case Nil
  show ?case by simp
next
  case (Cons y ys)
  show ?case
  proof (cases "cmp x y \<le> 0")
    case True
    have "cmp x z \<le> 0" if "z \<in> set ys" for z
    proof -
      from Cons.prems that have "cmp y z \<le> 0" by simp
      with trans True show ?thesis by blast
    qed
    with True Cons.prems show ?thesis by simp
  next
    case False
    with total have "cmp y x \<le> 0" by blast
    with False Cons show ?thesis by (simp add: set_insert_by)
  qed
qed

lemma sorted_array_sort:
  assumes "\<forall>a b. cmp a b \<le> 0 \<or> cmp b a \<le> 0"
    and "\<forall>a b c. cmp a b \<le> 0 \<and> cmp b c \<le> 0 \<longrightarrow> cmp a c \<le> 0"
  shows "sorted_wrt (\<lambda>a b. cmp a b \<le> 0) (array_sort cmp xs)"
proof (induction xs)
  case Nil
  show ?case by (simp add: array_sort_def)
next
  case (Cons x xs)
  have "array_sort cmp (x # xs) = insert_by cmp x (array_sort cmp xs)"
    by (simp add: array_sort_def)
  with Cons sorted_insert_by [OF assms] show ?case by simp
qed

lemma files_compare_le:
  "files_compare lc a b \<le> 0 \<longleftrightarrow>
     fst a = ''index.md'' \<or> (fst b \<noteq> ''index.md'' \<and> lc (fst a) (fst b) \<le> 0)"
  by (simp add: files_compare_def)

lemma sorted_files:
  assumes total: "\<forall>a b. lc a b \<le> 0 \<or> lc b a \<le> 0"
    and trans: "\<forall>a b c. lc a b \<le> 0 \<and> lc b c \<le> 0 \<longrightarrow> lc a c \<le> 0"
  shows "sorted_wrt (\<lambda>a b. files_compare lc a b \<le> 0) (array_sort (files_compare lc) xs)"
proof (rule sorted_array_sort)
  show "\<forall>a b. files_compare lc a b \<le> 0 \<or> files_compare lc b a \<le> 0"
    unfolding files_compare_le using total by blast
  show "\<forall>a b c. files_compare lc a b \<le> 0 \<and> files_compare lc b c \<le> 0
          \<longrightarrow> files_compare lc a c \<le> 0"
    unfolding files_compare_le using trans by blast
qed

lemma sorted_dirs:
  assumes total: "\<forall>a b. lc a b \<le> 0 \<or> lc b a \<le> 0"
    and trans: "\<forall>a b c. lc a b \<le> 0 \<and> lc b c \<le> 0 \<longrightarrow> lc a c \<le> 0"
  shows "sorted_wrt (\<lambda>a b. lc (fst a) (fst b) \<le> 0) (array_sort (dirs_compare lc) xs)"
proof -
  have "sorted_wrt (\<lambda>a b. dirs_compare lc a b \<le> 0) (array_sort (dirs_compare lc) xs)"
  proof (rule sorted_array_sort)
    show "\<forall>a b. dirs_compare lc a b \<le> 0 \<or> dirs_compare lc b a \<le> 0"
      unfolding dirs_compare_def using total by blast
    show "\<forall>a b c. dirs_compare lc a b \<le> 0 \<and> dirs_compare lc b c \<le> 0
            \<longrightarrow> dirs_compare lc a c \<le> 0"
      unfolding dirs_compare_def using trans by blast
  qed
  then show ?thesis by (simp add: dirs_compare_def)
qed

lemma index_first:
  assumes "sorted_wrt (\<lambda>a b. files_compare lc a b \<le> 0) fs"
    and "\<exists>f \<in> set fs. fst f = ''index.md''"
  shows "fst (hd fs) = ''index.md''"
proof (cases fs)
  case Nil
  with assms(2) show ?thesis by simp
next
  case (Cons h t)
  show ?thesis
  proof (rule ccontr)
    assume "fst (hd fs) \<noteq> ''index.md''"
    with Cons have h: "fst h \<noteq> ''index.md''" by simp
    with assms(2) Cons obtain f where f: "f \<in> set t" "fst f = ''index.md''" by auto
    with assms(1) Cons have "files_compare lc h f \<le> 0" by auto
    with h f show False by (simp add: files_compare_le)
  qed
qed

lemma rest_sorted:
  assumes "sorted_wrt (\<lambda>a b. files_compare lc a b \<le> 0) fs"
  shows "sorted_wrt (\<lambda>a b. lc (fst a) (fst b) \<le> 0) (filter (\<lambda>f. fst f \<noteq> ''index.md'') fs)"
proof -
  have "sorted_wrt (\<lambda>a b. files_compare lc a b \<le> 0) (filter (\<lambda>f. fst f \<noteq> ''index.md'') fs)"
    using assms by (rule sorted_wrt_filter)
  then show ?thesis
    by (rule sorted_wrt_mono_rel [rotated]) (auto simp: files_compare_le)
qed

text \<open>
  Claim C8, as the code has it. The order of names is the one \<open>localeCompare\<close>
  decides, the collation of the host's locale, which is not the lexicographic order of
  the names' code units; it is total and transitive. For every directory the result of
  \<open>buildNavTree\<close> is the items of its documents followed by the nodes of its
  subdirectories, where \<open>files\<close> is a rearrangement of the directory's \<open>.md\<close> files and
  \<open>dirs\<close> one of its subdirectories such that: when a file named \<open>index.md\<close> is
  present, it comes first; the other files are in ascending order of their names; and
  the subdirectories are in ascending order of their names. (A subdirectory contributes
  its node when its own list of children is not empty, see C9.)
\<close>

theorem buildNavTree_order:
  assumes total: "\<forall>a b. lc a b \<le> 0 \<or> lc b a \<le> 0"
    and trans: "\<forall>a b c. lc a b \<le> 0 \<and> lc b c \<le> 0 \<longrightarrow> lc a c \<le> 0"
  shows "\<exists>files dirs.
     mset files = mset (filter is_md_file entries) \<and>
     mset dirs = mset (filter (\<lambda>e. isDirectory (snd e)) entries) \<and>
     buildNavTree lc entries pre =
       map (file_item pre) files @
       concat (map (\<lambda>subDir. dir_item subDir
                      (buildNavTree lc (dir_entries (snd subDir)) (pre @ fst subDir @ ''/'')))
                 dirs) \<and>
     ((\<exists>f \<in> set files. fst f = ''index.md'') \<longrightarrow> fst (hd files) = ''index.md'') \<and>
     sorted_wrt (\<lambda>a b. lc (fst a) (fst b) \<le> 0) (filter (\<lambda>f. fst f \<noteq> ''index.md'') files) \<and>
     sorted_wrt (\<lambda>a b. lc (fst a) (fst b) \<le> 0) dirs"
proof -
  let ?files = "array_sort (files_compare lc) (filter is_md_file entries)"
  let ?dirs = "array_sort (dirs_compare lc) (filter (\<lambda>e. isDirectory (snd e)) entries)"
  have s: "sorted_wrt (\<lambda>a b. files_compare lc a b \<le> 0) ?files"
    using total trans by (rule sorted_files)
  have "mset ?files = mset (filter is_md_file entries)"
    and "mset ?dirs = mset (filter (\<lambda>e. isDirectory (snd e)) entries)"
    by (simp_all only: mset_array_sort)
  moreover have "buildNavTree lc entries pre =
       map (file_item pre) ?files @
       concat (map (\<lambda>subDir. dir_item subDir
                      (buildNavTree lc (dir_entries (snd subDir)) (pre @ fst subDir @ ''/'')))
                 ?dirs)"
    by (rule buildNavTree_unfold)
  moreover have "(\<exists>f \<in> set ?files. fst f = ''index.md'') \<longrightarrow> fst (hd ?files) = ''index.md''"
    using index_first [OF s] by blast
  moreover have "sorted_wrt (\<lambda>a b. lc (fst a) (fst b) \<le> 0)
                   (filter (\<lambda>f. fst f \<noteq> ''index.md'') ?files)"
    using s by (rule rest_sorted)
  moreover have "sorted_wrt (\<lambda>a b. lc (fst a) (fst b) \<le> 0) ?dirs"
    using total trans by (rule sorted_dirs)
  ultimately show ?thesis by blast
qed


lemma dir_item_alt:
  "dir_item subDir children =
     (if children = [] then []
      else [NavItem (prettifyName (fst subDir))
              (case find (\<lambda>child. basename (nav_path child) = ''index.html'') children of
                 None \<Rightarrow> ''#'' | Some page \<Rightarrow> nav_path page)
              (Some children)])"
  by (cases "find (\<lambda>child. basename (nav_path child) = ''index.html'') children")
     (simp_all add: dir_item_def)

text \<open>
  Claim C9. After the documents, the result of \<open>buildNavTree\<close> has, for each
  subdirectory in sorted order, one node when the list \<open>children\<close> built for it is not
  empty and none when it is empty. The node's path is the path of the first child whose
  path has the basename \<open>index.html\<close>, and \<open>#\<close> when there is no such child. Hence every
  item of the result that has children has a non-empty list of them and this path, and a
  subdirectory has an item carrying its children if and only if they are not empty.
\<close>

theorem buildNavTree_directory_nodes:
  "buildNavTree lc entries pre =
     map (file_item pre) (array_sort (files_compare lc) (filter is_md_file entries)) @
     concat (map (\<lambda>subDir.
                let children = buildNavTree lc (dir_entries (snd subDir)) (pre @ fst subDir @ ''/'')
                in if children = [] then []
                   else [NavItem (prettifyName (fst subDir))
                           (case find (\<lambda>child. basename (nav_path child) = ''index.html'')
                                   children of
                              None \<Rightarrow> ''#'' | Some page \<Rightarrow> nav_path page)
                           (Some children)])
               (array_sort (dirs_compare lc) (filter (\<lambda>e. isDirectory (snd e)) entries))) \<and>
   (\<forall>item \<in> set (buildNavTree lc entries pre). \<forall>children.
      nav_children item = Some children \<longrightarrow>
        children \<noteq> [] \<and>
        nav_path item =
          (case find (\<lambda>child. basename (nav_path child) = ''index.html'') children of
             None \<Rightarrow> ''#'' | Some page \<Rightarrow> nav_path page)) \<and>
   (\<forall>subDir \<in> set entries. isDirectory (snd subDir) \<longrightarrow>
      ((\<exists>item \<in> set (buildNavTree lc entries pre).
          nav_children item
            = Some (buildNavTree lc (dir_entries (snd subDir)) (pre @ fst subDir @ ''/'')))
       \<longleftrightarrow> buildNavTree lc (dir_entries (snd subDir)) (pre @ fst subDir @ ''/'') \<noteq> []))"
proof -
  let ?files = "array_sort (files_compare lc) (filter is_md_file entries)"
  let ?dirs = "array_sort (dirs_compare lc) (filter (\<lambda>e. isDirectory (snd e)) entries)"
  let ?sub = "\<lambda>subDir. buildNavTree lc (dir_entries (snd subDir)) (pre @ fst subDir @ ''/'')"
  let ?path = "\<lambda>children.
     case find (\<lambda>child. basename (nav_path child) = ''index.html'') children of
       None \<Rightarrow> ''#'' | Some page \<Rightarrow> nav_path page"
  have unf: "buildNavTree lc entries pre =
      map (file_item pre) ?files @ concat (map (\<lambda>subDir. dir_item subDir (?sub subDir)) ?dirs)"
    by (rule buildNavTree_unfold)
  have members: "item \<in> set (buildNavTree lc entries pre) \<longleftrightarrow>
      (\<exists>f \<in> set ?files. item = file_item pre f) \<or>
      (\<exists>subDir \<in> set ?dirs. ?sub subDir \<noteq> [] \<and>
         item = NavItem (prettifyName (fst subDir)) (?path (?sub subDir)) (Some (?sub subDir)))"
    for item
    unfolding unf by (auto simp: dir_item_alt)
  have first: "buildNavTree lc entries pre =
     map (file_item pre) ?files @
     concat (map (\<lambda>subDir.
                let children = ?sub subDir
                in if children = [] then []
                   else [NavItem (prettifyName (fst subDir)) (?path children) (Some children)])
               ?dirs)"
    unfolding unf by (simp add: dir_item_alt Let_def)
  have second: "children \<noteq> [] \<and> nav_path item = ?path children"
    if "item \<in> set (buildNavTree lc entries pre)" "nav_children item = Some children"
    for item children
    using that unfolding members by (auto simp: file_item_def)
  have third: "(\<exists>item \<in> set (buildNavTree lc entries pre).
                  nav_children item = Some (?sub subDir)) \<longleftrightarrow> ?sub subDir \<noteq> []"
    if "subDir \<in> set entries" "isDirectory (snd subDir)" for subDir
  proof
    assume "\<exists>item \<in> set (buildNavTree lc entries pre). nav_children item = Some (?sub subDir)"
    with second show "?sub subDir \<noteq> []" by blast
  next
    assume ne: "?sub subDir \<noteq> []"
    from that have "subDir \<in> set ?dirs" by (simp add: set_array_sort)
    with ne have "NavItem (prettifyName (fst subDir)) (?path (?sub subDir)) (Some (?sub subDir))
                  \<in> set (buildNavTree lc entries pre)"
      unfolding members by blast
    then show "\<exists>item \<in> set (buildNavTree lc entries pre).
                 nav_children item = Some (?sub subDir)"
      by force
  qed
  from first second third show ?thesis by blast
qed

lemma codeUnitCompare_total: "\<forall>a b. codeUnitCompare a b \<le> 0 \<or> codeUnitCompare b a \<le> 0"
  by (auto simp: codeUnitCompare_def)

lemma codeUnitCompare_trans:
  "\<forall>a b c. codeUnitCompare a b \<le> 0 \<and> codeUnitCompare b c \<le> 0 \<longrightarrow> codeUnitCompare a c \<le> 0"
  by (auto simp: codeUnitCompare_def split: if_splits)


text \<open>Evaluating \<open>buildNavTree\<close> on a given directory, one level at a time.\<close>

lemma buildNavTree_eval:
  assumes "array_sort (files_compare lc) (filter is_md_file entries) = fs"
    and "array_sort (dirs_compare lc) (filter (\<lambda>e. isDirectory (snd e)) entries) = ds"
  shows "buildNavTree lc entries pre =
     map (file_item pre) fs @
     concat (map (\<lambda>subDir. dir_item subDir
                    (buildNavTree lc (dir_entries (snd subDir)) (pre @ fst subDir @ ''/'')))
               ds)"
  using assms buildNavTree_unfold [of lc entries pre] by simp

lemma dictionaryCompare_total:
  "\<forall>a b. dictionaryCompare a b \<le> 0 \<or> dictionaryCompare b a \<le> 0"
  using codeUnitCompare_total by (simp add: dictionaryCompare_def)

lemma dictionaryCompare_trans:
  "\<forall>a b c. dictionaryCompare a b \<le> 0 \<and> dictionaryCompare b c \<le> 0
     \<longrightarrow> dictionaryCompare a c \<le> 0"
  using codeUnitCompare_trans unfolding dictionaryCompare_def by blast

text \<open>
  A directory listed out of order, compared as a dictionary does: \<open>index\<close> first, then
  \<open>Alpha\<close> and \<open>zeta\<close>, then the nodes of \<open>api\<close> and \<open>Guide\<close>.
\<close>

theorem buildNavTree_order_witness:
  "buildNavTree dictionaryCompare
     [(''zeta.md'', File ''''), (''Guide'', Dir [(''setup.md'', File '''')]),
      (''index.md'', File ''''), (''Alpha.md'', File ''''),
      (''api'', Dir [(''ref.md'', File '''')]), (''notes.txt'', File '''')] ''/''
   = [NavItem ''Home'' ''/index.html'' None,
      NavItem ''Alpha'' ''/Alpha.html'' None,
      NavItem ''Zeta'' ''/zeta.html'' None,
      NavItem ''Api'' ''#'' (Some [NavItem ''Ref'' ''/api/ref.html'' None]),
      NavItem ''Guide'' ''#'' (Some [NavItem ''Setup'' ''/Guide/setup.html'' None])]"
proof -
  let ?e = "[(''zeta.md'', File ''''), (''Guide'', Dir [(''setup.md'', File '''')]),
      (''index.md'', File ''''), (''Alpha.md'', File ''''),
      (''api'', Dir [(''ref.md'', File '''')]), (''notes.txt'', File '''')]"
  have guide: "buildNavTree dictionaryCompare [(''setup.md'', File '''')] ''/Guide/''
                 = [NavItem ''Setup'' ''/Guide/setup.html'' None]"
  proof -
    have "array_sort (files_compare dictionaryCompare)
            (filter is_md_file [(''setup.md'', File '''')])
            = [(''setup.md'', File '''')]"
      and "array_sort (dirs_compare dictionaryCompare)
             (filter (\<lambda>e. isDirectory (snd e)) [(''setup.md'', File '''')]) = []"
      by code_simp+
    from buildNavTree_eval [OF this] have
      "buildNavTree dictionaryCompare [(''setup.md'', File '''')] ''/Guide/''
         = [file_item ''/Guide/'' (''setup.md'', File '''')]"
      by simp
    moreover have "file_item ''/Guide/'' (''setup.md'', File '''')
                     = NavItem ''Setup'' ''/Guide/setup.html'' None"
      by code_simp
    ultimately show ?thesis by simp
  qed
  have api: "buildNavTree dictionaryCompare [(''ref.md'', File '''')] ''/api/''
               = [NavItem ''Ref'' ''/api/ref.html'' None]"
  proof -
    have "array_sort (files_compare dictionaryCompare)
            (filter is_md_file [(''ref.md'', File '''')])
            = [(''ref.md'', File '''')]"
      and "array_sort (dirs_compare dictionaryCompare)
             (filter (\<lambda>e. isDirectory (snd e)) [(''ref.md'', File '''')]) = []"
      by code_simp+
    from buildNavTree_eval [OF this] have
      "buildNavTree dictionaryCompare [(''ref.md'', File '''')] ''/api/''
         = [file_item ''/api/'' (''ref.md'', File '''')]"
      by simp
    moreover have "file_item ''/api/'' (''ref.md'', File '''')
                     = NavItem ''Ref'' ''/api/ref.html'' None"
      by code_simp
    ultimately show ?thesis by simp
  qed
  have items: "dir_item (''api'', Dir [(''ref.md'', File '''')])
                 [NavItem ''Ref'' ''/api/ref.html'' None]
               = [NavItem ''Api'' ''#'' (Some [NavItem ''Ref'' ''/api/ref.html'' None])]"
    "dir_item (''Guide'', Dir [(''setup.md'', File '''')])
       [NavItem ''Setup'' ''/Guide/setup.html'' None]
     = [NavItem ''Guide'' ''#'' (Some [NavItem ''Setup'' ''/Guide/setup.html'' None])]"
    "file_item ''/'' (''index.md'', File '''') = NavItem ''Home'' ''/index.html'' None"
    "file_item ''/'' (''Alpha.md'', File '''') = NavItem ''Alpha'' ''/Alpha.html'' None"
    "file_item ''/'' (''zeta.md'', File '''') = NavItem ''Zeta'' ''/zeta.html'' None"
    by code_simp+
  from buildNavTree_order [OF dictionaryCompare_total dictionaryCompare_trans, of ?e "''/''"]
  obtain files dirs where
    perm: "mset files = mset (filter is_md_file ?e)"
          "mset dirs = mset (filter (\<lambda>e. isDirectory (snd e)) ?e)"
    and out: "buildNavTree dictionaryCompare ?e ''/'' =
       map (file_item ''/'') files @
       concat (map (\<lambda>subDir. dir_item subDir
                      (buildNavTree dictionaryCompare (dir_entries (snd subDir))
                         (''/'' @ fst subDir @ ''/'')))
                 dirs)"
    by blast
  have "array_sort (files_compare dictionaryCompare) (filter is_md_file ?e)
          = [(''index.md'', File ''''), (''Alpha.md'', File ''''), (''zeta.md'', File '''')]"
    and "array_sort (dirs_compare dictionaryCompare) (filter (\<lambda>e. isDirectory (snd e)) ?e)
          = [(''api'', Dir [(''ref.md'', File '''')]), (''Guide'', Dir [(''setup.md'', File '''')])]"
    by code_simp+
  from buildNavTree_eval [OF this, of "''/''"] show ?thesis
    using out by (simp add: guide api items)
qed

text \<open>
  Claim C8 as stated fails. In the lexicographic order of the names \<open>B.md\<close> comes
  before \<open>a.md\<close>; \<open>buildNavTree\<close> lists \<open>a.md\<close> first, because \<open>localeCompare\<close> puts it
  first.
\<close>

theorem buildNavTree_not_lexicographic_counterexample:
  "buildNavTree dictionaryCompare [(''B.md'', File ''''), (''a.md'', File '''')] ''/''
   = [NavItem ''A'' ''/a.html'' None, NavItem ''B'' ''/B.html'' None] \<and>
   ''B.md'' < ''a.md''"
proof -
  have "array_sort (files_compare dictionaryCompare)
          (filter is_md_file [(''B.md'', File ''''), (''a.md'', File '''')])
          = [(''a.md'', File ''''), (''B.md'', File '''')]"
    and "array_sort (dirs_compare dictionaryCompare)
           (filter (\<lambda>e. isDirectory (snd e)) [(''B.md'', File ''''), (''a.md'', File '''')]) = []"
    by code_simp+
  from buildNavTree_eval [OF this, of "''/''"] have
    "buildNavTree dictionaryCompare [(''B.md'', File ''''), (''a.md'', File '''')] ''/''
       = [file_item ''/'' (''a.md'', File ''''), file_item ''/'' (''B.md'', File '''')]"
    by simp
  moreover have "file_item ''/'' (''a.md'', File '''') = NavItem ''A'' ''/a.html'' None"
    and "file_item ''/'' (''B.md'', File '''') = NavItem ''B'' ''/B.html'' None"
    by code_simp+
  moreover have "''B.md'' < ''a.md''" by code_simp
  ultimately show ?thesis by simp
qed

text \<open>
  \<open>guide\<close> has an index page and gets its path; \<open>api\<close> has none and gets \<open>#\<close>;
  \<open>empty\<close> holds no document and gets no node.
\<close>

theorem buildNavTree_directory_nodes_witness:
  "buildNavTree codeUnitCompare
     [(''guide'', Dir [(''setup.md'', File ''''), (''index.md'', File '''')]),
      (''empty'', Dir [(''logo.png'', File '''')]),
      (''api'', Dir [(''ref.md'', File '''')]),
      (''index.md'', File '''')] ''/''
   = [NavItem ''Home'' ''/index.html'' None,
      NavItem ''Api'' ''#'' (Some [NavItem ''Ref'' ''/api/ref.html'' None]),
      NavItem ''Guide'' ''/guide/index.html''
        (Some [NavItem ''Home'' ''/guide/index.html'' None,
               NavItem ''Setup'' ''/guide/setup.html'' None])]"
proof -
  let ?e = "[(''guide'', Dir [(''setup.md'', File ''''), (''index.md'', File '''')]),
      (''empty'', Dir [(''logo.png'', File '''')]),
      (''api'', Dir [(''ref.md'', File '''')]),
      (''index.md'', File '''')]"
  have empty: "buildNavTree codeUnitCompare [(''logo.png'', File '''')] ''/empty/'' = []"
  proof -
    have "array_sort (files_compare codeUnitCompare) (filter is_md_file [(''logo.png'', File '''')])
            = []"
      and "array_sort (dirs_compare codeUnitCompare)
             (filter (\<lambda>e. isDirectory (snd e)) [(''logo.png'', File '''')]) = []"
      by code_simp+
    from buildNavTree_eval [OF this] show ?thesis by simp
  qed
  have api: "buildNavTree codeUnitCompare [(''ref.md'', File '''')] ''/api/''
               = [NavItem ''Ref'' ''/api/ref.html'' None]"
  proof -
    have "array_sort (files_compare codeUnitCompare) (filter is_md_file [(''ref.md'', File '''')])
            = [(''ref.md'', File '''')]"
      and "array_sort (dirs_compare codeUnitCompare)
             (filter (\<lambda>e. isDirectory (snd e)) [(''ref.md'', File '''')]) = []"
      by code_simp+
    from buildNavTree_eval [OF this] have
      "buildNavTree codeUnitCompare [(''ref.md'', File '''')] ''/api/''
         = [file_item ''/api/'' (''ref.md'', File '''')]"
      by simp
    moreover have "file_item ''/api/'' (''ref.md'', File '''')
                     = NavItem ''Ref'' ''/api/ref.html'' None"
      by code_simp
    ultimately show ?thesis by simp
  qed
  have guide: "buildNavTree codeUnitCompare
                 [(''setup.md'', File ''''), (''index.md'', File '''')] ''/guide/''
               = [NavItem ''Home'' ''/guide/index.html'' None,
                  NavItem ''Setup'' ''/guide/setup.html'' None]"
  proof -
    have "array_sort (files_compare codeUnitCompare)
            (filter is_md_file [(''setup.md'', File ''''), (''index.md'', File '''')])
            = [(''index.md'', File ''''), (''setup.md'', File '''')]"
      and "array_sort (dirs_compare codeUnitCompare)
             (filter (\<lambda>e. isDirectory (snd e))
                [(''setup.md'', File ''''), (''index.md'', File '''')]) = []"
      by code_simp+
    from buildNavTree_eval [OF this] have
      "buildNavTree codeUnitCompare [(''setup.md'', File ''''), (''index.md'', File '''')] ''/guide/''
         = map (file_item ''/guide/'') [(''index.md'', File ''''), (''setup.md'', File '''')]"
      by simp
    moreover have "map (file_item ''/guide/'') [(''index.md'', File ''''), (''setup.md'', File '''')]
                     = [NavItem ''Home'' ''/guide/index.html'' None,
                        NavItem ''Setup'' ''/guide/setup.html'' None]"
      by code_simp
    ultimately show ?thesis by simp
  qed
  have sorted: "array_sort (files_compare codeUnitCompare) (filter is_md_file ?e)
                  = [(''index.md'', File '''')]"
    "array_sort (dirs_compare codeUnitCompare) (filter (\<lambda>e. isDirectory (snd e)) ?e)
       = [(''api'', Dir [(''ref.md'', File '''')]),
          (''empty'', Dir [(''logo.png'', File '''')]),
          (''guide'', Dir [(''setup.md'', File ''''), (''index.md'', File '''')])]"
    by code_simp+
  have names: "file_item ''/'' (''index.md'', File '''') = NavItem ''Home'' ''/index.html'' None"
    "prettifyName ''api'' = ''Api''" "prettifyName ''guide'' = ''Guide''"
    "basename ''/api/ref.html'' = ''ref.html''"
    "basename ''/guide/index.html'' = ''index.html''"
    by code_simp+
  from buildNavTree_directory_nodes [of codeUnitCompare ?e "''/''"]
  have "buildNavTree codeUnitCompare ?e ''/'' =
     map (file_item ''/'') (array_sort (files_compare codeUnitCompare) (filter is_md_file ?e)) @
     concat (map (\<lambda>subDir.
                let children = buildNavTree codeUnitCompare (dir_entries (snd subDir))
                                 (''/'' @ fst subDir @ ''/'')
                in if children = [] then []
                   else [NavItem (prettifyName (fst subDir))
                           (case find (\<lambda>child. basename (nav_path child) = ''index.html'')
                                   children of
                              None \<Rightarrow> ''#'' | Some page \<Rightarrow> nav_path page)
                           (Some children)])
               (array_sort (dirs_compare codeUnitCompare)
                  (filter (\<lambda>e. isDirectory (snd e)) ?e)))"
    by blast
  then show ?thesis
    unfolding sorted by (simp add: empty api guide names)
qed

section \<open>Image externalisation: the cache\<close>

lemma process_matches_Nil: "process_matches e live dir [] acc = acc"
  by (simp add: process_matches_def)

lemma process_matches_Cons:
  "process_matches e live dir (m # ms) acc
   = process_matches e live dir ms (loop_body e live dir acc m)"
  by (simp add: process_matches_def)

lemma process_matches_append:
  "process_matches e live dir (ms1 @ ms2) acc
   = process_matches e live dir ms2 (process_matches e live dir ms1 acc)"
  by (simp add: process_matches_def)

subsection \<open>One download\<close>

lemma download_cases:
  assumes "download e url filename localFilePath st = (r, st')"
  shows "fetched st' = fetched st @ [url] \<and> allUsedImages st' = allUsedImages st \<and>
    ((\<exists>err. r = Inl err \<and> publicDir st' = publicDir st \<and> writes st' = writes st \<and>
            console st' = console st @ [Downloading url]) \<or>
     (\<exists>bytes d'. r = Inr () \<and>
            writeFileSync (os_denied e) (publicDir st) filename bytes = Inr d' \<and>
            publicDir st' = d' \<and> writes st' = writes st @ [localFilePath] \<and>
            console st' = console st @ [Downloading url, SavedTo localFilePath]))"
  using assms unfolding download_def Let_def
  by (auto split: option.splits if_splits sum.splits)

lemma download_failed_fetch:
  assumes "fetch e (length (fetched st)) url = None \<or>
           (\<exists>resp. fetch e (length (fetched st)) url = Some resp \<and> \<not> ok resp)"
  shows "\<exists>err. download e url filename localFilePath st
           = (Inl err, st\<lparr>console := console st @ [Downloading url],
                            fetched := fetched st @ [url]\<rparr>) \<and>
          (err = FetchRejected \<or> (\<exists>t. err = FetchNotOk t))"
  using assms unfolding download_def Let_def by auto

lemma map_of_snoc:
  "map_of (d @ [(name, x)]) n = (case map_of d n of Some y \<Rightarrow> Some y
                                  | None \<Rightarrow> if n = name then Some x else None)"
  by (induction d) auto

lemma map_of_rewritten:
  "map_of (map (\<lambda>e. if fst e = name then (name, g (snd e)) else e) d) n
   = (if n = name then map_option g (map_of d name) else map_of d n)"
  by (induction d) auto

text \<open>
  A write to a name that \<open>existsSync\<close> did not find: afterwards it finds the name, and
  every other name resolves as before.
\<close>

lemma writeFileSync_new:
  assumes "writeFileSync denied d name bytes = Inr d'" and "\<not> existsSync d name"
  shows "name \<noteq> [] \<and> existsSync d' name \<and> (\<forall>n. n \<noteq> name \<longrightarrow> map_of d' n = map_of d n)"
proof (cases "map_of d name")
  case None
  with assms(1) have "name \<noteq> []" and "d' = d @ [(name, File bytes)]"
    by (auto simp: writeFileSync_def split: if_splits)
  moreover have "map_of (d @ [(name, File bytes)]) name = Some (File bytes)"
    using None by (simp only: map_of_snoc) simp
  moreover have "map_of (d @ [(name, File bytes)]) n = map_of d n" if "n \<noteq> name" for n
    using that by (simp only: map_of_snoc) (simp split: option.splits)
  ultimately show ?thesis by (simp add: existsSync_def)
next
  case (Some nd)
  with assms(2) have nd: "nd = Dangling" by (auto simp: existsSync_def)
  with assms(1) Some have "name \<noteq> []"
    and d': "d' = map (\<lambda>e. if fst e = name then (name, written_node (snd e) bytes) else e) d"
    by (auto simp: writeFileSync_def split: if_splits)
  have rw: "map_of d' n = (if n = name then map_option (\<lambda>x. written_node x bytes) (map_of d name)
                            else map_of d n)" for n
    unfolding d' using map_of_rewritten [of name "\<lambda>x. written_node x bytes" d n] by simp
  have "map_of d' name = Some Other"
    using Some nd by (simp add: rw)
  moreover have "map_of d' n = map_of d n" if "n \<noteq> name" for n
    using that by (simp add: rw)
  ultimately show ?thesis using \<open>name \<noteq> []\<close> by (simp add: existsSync_def)
qed

subsection \<open>One turn of the loop\<close>

text \<open>The four ways a turn can go, with everything it changes.\<close>

lemma loop_body_cases:
  assumes "loop_body e live dir (doc, st) m = (doc', st')"
  shows
   "(doc' = doc \<and> publicDir st' = publicDir st \<and> writes st' = writes st \<and>
     fetched st' = fetched st \<and> allUsedImages st' = allUsedImages st \<and>
     (remoteUrl m = [] \<or> url_pathname e (remoteUrl m) = None)) \<or>
    (\<exists>pathname. remoteUrl m \<noteq> [] \<and> url_pathname e (remoteUrl m) = Some pathname \<and>
       allUsedImages st' = insert (path_join dir (basename pathname)) (allUsedImages st) \<and>
       (existsSync (publicDir st) (basename pathname) \<and>
          publicDir st' = publicDir st \<and> writes st' = writes st \<and>
          fetched st' = fetched st \<and> console st' = console st
        \<or>
        \<not> existsSync (publicDir st) (basename pathname) \<and>
          fetched st' = fetched st @ [remoteUrl m] \<and>
          (doc' = doc \<and> publicDir st' = publicDir st \<and> writes st' = writes st
           \<or>
           basename pathname \<noteq> [] \<and>
           existsSync (publicDir st') (basename pathname) \<and>
           (\<forall>n. n \<noteq> basename pathname \<longrightarrow>
                  map_of (publicDir st') n = map_of (publicDir st) n) \<and>
           writes st' = writes st @ [path_join dir (basename pathname)])))"
proof (cases "remoteUrl m = []")
  case True
  with assms show ?thesis by (simp add: loop_body_def)
next
  case nonempty: False
  show ?thesis
  proof (cases "url_pathname e (remoteUrl m)")
    case None
    with assms nonempty show ?thesis
      by (auto simp: loop_body_def try_block_def Let_def)
  next
    case (Some pathname)
    let ?name = "basename pathname"
    let ?st1 = "st\<lparr>allUsedImages := insert (path_join dir ?name) (allUsedImages st)\<rparr>"
    show ?thesis
    proof (cases "existsSync (publicDir st) ?name")
      case True
      with assms nonempty Some show ?thesis
        by (auto simp: loop_body_def try_block_def Let_def)
    next
      case False
      obtain r st2 where dl: "download e (remoteUrl m) ?name (path_join dir ?name) ?st1 = (r, st2)"
        by fastforce
      from download_cases [OF dl] have
        f: "fetched st2 = fetched st @ [remoteUrl m]"
        and u: "allUsedImages st2 = insert (path_join dir ?name) (allUsedImages st)"
        by simp_all
      show ?thesis
      proof (cases r)
        case (Inl err)
        with download_cases [OF dl] have
          "publicDir st2 = publicDir st" "writes st2 = writes st"
          by auto
        moreover from assms nonempty Some False dl Inl have
          "doc' = doc" "st' = st2\<lparr>console := console st2 @ [ErrorProcessing (remoteUrl m) err]\<rparr>"
          by (auto simp: loop_body_def try_block_def Let_def)
        ultimately show ?thesis using nonempty Some False f u by simp
      next
        case (Inr x)
        with download_cases [OF dl] obtain bytes d' where
          w: "writeFileSync (os_denied e) (publicDir st) ?name bytes = Inr d'"
          and d': "publicDir st2 = d'" and ws: "writes st2 = writes st @ [path_join dir ?name]"
          by auto
        from writeFileSync_new [OF w False] have
          "?name \<noteq> []" "existsSync d' ?name" "\<forall>n. n \<noteq> ?name \<longrightarrow> map_of d' n = map_of (publicDir st) n"
          by simp_all
        moreover from assms nonempty Some False dl Inr have "st' = st2"
          by (auto simp: loop_body_def try_block_def Let_def)
        ultimately show ?thesis using nonempty Some False f u d' ws by simp
      qed
    qed
  qed
qed

subsection \<open>What a run of the loop can do to the state\<close>

lemma existsSync_lookup: "map_of d' n = map_of d n \<Longrightarrow> existsSync d' n = existsSync d n"
  by (simp add: existsSync_def)

lemma effect_refl: "effect e dir st st"
  unfolding effect_def by (intro exI [of _ "[]"]) simp

lemma effect_trans:
  assumes "effect e dir st s1" and "effect e dir s1 s2"
  shows "effect e dir st s2"
proof -
  from assms(1) obtain w1 f1 where 1:
    "fetched s1 = fetched st @ f1" "writes s1 = writes st @ map (path_join dir) w1"
    "allUsedImages st \<subseteq> allUsedImages s1" "distinct w1"
    "\<forall>n \<in> set w1. n \<noteq> [] \<and> \<not> existsSync (publicDir st) n \<and> existsSync (publicDir s1) n"
    "\<forall>n. existsSync (publicDir st) n \<longrightarrow> map_of (publicDir s1) n = map_of (publicDir st) n"
    "\<forall>u \<in> set f1. \<exists>pn. url_pathname e u = Some pn \<and> \<not> existsSync (publicDir st) (basename pn)"
    unfolding effect_def by blast
  from assms(2) obtain w2 f2 where 2:
    "fetched s2 = fetched s1 @ f2" "writes s2 = writes s1 @ map (path_join dir) w2"
    "allUsedImages s1 \<subseteq> allUsedImages s2" "distinct w2"
    "\<forall>n \<in> set w2. n \<noteq> [] \<and> \<not> existsSync (publicDir s1) n \<and> existsSync (publicDir s2) n"
    "\<forall>n. existsSync (publicDir s1) n \<longrightarrow> map_of (publicDir s2) n = map_of (publicDir s1) n"
    "\<forall>u \<in> set f2. \<exists>pn. url_pathname e u = Some pn \<and> \<not> existsSync (publicDir s1) (basename pn)"
    unfolding effect_def by blast
  have up: "existsSync (publicDir s1) n" if "existsSync (publicDir st) n" for n
    using 1(6) that existsSync_lookup [of "publicDir s1" n "publicDir st"] by simp
  have up2: "existsSync (publicDir s2) n" if "existsSync (publicDir s1) n" for n
    using 2(6) that existsSync_lookup [of "publicDir s2" n "publicDir s1"] by simp
  have "distinct (w1 @ w2)"
    using 1(4,5) 2(4,5) by auto
  moreover have "\<forall>n \<in> set (w1 @ w2). n \<noteq> [] \<and> \<not> existsSync (publicDir st) n \<and>
                    existsSync (publicDir s2) n"
    using 1(5) 2(5) up up2 by auto
  moreover have "\<forall>n. existsSync (publicDir st) n \<longrightarrow>
                    map_of (publicDir s2) n = map_of (publicDir st) n"
    using 1(6) 2(6) up by simp
  moreover have "\<forall>u \<in> set (f1 @ f2). \<exists>pn. url_pathname e u = Some pn \<and>
                    \<not> existsSync (publicDir st) (basename pn)"
    using 1(7) 2(7) up by fastforce
  moreover have "fetched s2 = fetched st @ (f1 @ f2)"
    "writes s2 = writes st @ map (path_join dir) (w1 @ w2)"
    "allUsedImages st \<subseteq> allUsedImages s2"
    using 1 2 by auto
  ultimately show ?thesis unfolding effect_def by blast
qed

lemma loop_body_effect:
  assumes "loop_body e live dir (doc, st) m = (doc', st')"
  shows "effect e dir st st'"
proof -
  from loop_body_cases [OF assms] consider
    (same) "publicDir st' = publicDir st" "writes st' = writes st" "fetched st' = fetched st"
      "allUsedImages st \<subseteq> allUsedImages st'"
  | (failed) pathname where "publicDir st' = publicDir st" "writes st' = writes st"
      "fetched st' = fetched st @ [remoteUrl m]" "allUsedImages st \<subseteq> allUsedImages st'"
      "url_pathname e (remoteUrl m) = Some pathname"
      "\<not> existsSync (publicDir st) (basename pathname)"
  | (stored) pathname where
      "basename pathname \<noteq> []" "existsSync (publicDir st') (basename pathname)"
      "\<forall>n. n \<noteq> basename pathname \<longrightarrow> map_of (publicDir st') n = map_of (publicDir st) n"
      "writes st' = writes st @ [path_join dir (basename pathname)]"
      "fetched st' = fetched st @ [remoteUrl m]" "allUsedImages st \<subseteq> allUsedImages st'"
      "url_pathname e (remoteUrl m) = Some pathname"
      "\<not> existsSync (publicDir st) (basename pathname)"
    by (elim disjE exE conjE) auto
  then show ?thesis
  proof cases
    case same
    then show ?thesis unfolding effect_def by (intro exI [of _ "[]"]) simp
  next
    case failed
    then show ?thesis
      unfolding effect_def
      by (intro exI [of _ "[]"] exI [of _ "[remoteUrl m]"]) simp
  next
    case stored
    have "\<forall>n. existsSync (publicDir st) n \<longrightarrow>
                map_of (publicDir st') n = map_of (publicDir st) n"
    proof (intro allI impI)
      fix n assume "existsSync (publicDir st) n"
      with stored(8) have "n \<noteq> basename pathname" by blast
      with stored(3) show "map_of (publicDir st') n = map_of (publicDir st) n" by blast
    qed
    with stored show ?thesis
      unfolding effect_def
      by (intro exI [of _ "[basename pathname]"] exI [of _ "[remoteUrl m]"]) simp
  qed
qed

lemma process_matches_effect:
  "process_matches e live dir ms (doc, st) = (doc', st') \<Longrightarrow> effect e dir st st'"
proof (induction ms arbitrary: doc st)
  case Nil
  then show ?case by (simp add: process_matches_Nil effect_refl)
next
  case (Cons m ms)
  obtain t1 s1 where step: "loop_body e live dir (doc, st) m = (t1, s1)"
    by fastforce
  with Cons.prems have "process_matches e live dir ms (t1, s1) = (doc', st')"
    by (simp add: process_matches_Cons)
  from loop_body_effect [OF step] Cons.IH [OF this] show ?case
    by (rule effect_trans)
qed

lemma path_join_inj:
  "b \<noteq> [] \<Longrightarrow> path_join dir a = path_join dir b \<Longrightarrow> a = b"
  by (auto simp: path_join_def split: if_splits)

lemma effect_lookup:
  assumes "effect e dir st st'" and "existsSync (publicDir st) n"
  shows "map_of (publicDir st') n = map_of (publicDir st) n \<and> existsSync (publicDir st') n"
proof -
  from assms have eq: "map_of (publicDir st') n = map_of (publicDir st) n"
    unfolding effect_def by blast
  with assms(2) existsSync_lookup [OF eq] show ?thesis by simp
qed

lemma effect_writes_once:
  assumes "effect e dir st st'"
  shows "\<exists>new. writes st' = writes st @ new \<and> distinct new \<and>
           (\<forall>p \<in> set new. \<exists>n. p = path_join dir n \<and> n \<noteq> [] \<and>
                               \<not> existsSync (publicDir st) n \<and> existsSync (publicDir st') n)"
proof -
  from assms obtain neww where a:
    "writes st' = writes st @ map (path_join dir) neww" "distinct neww"
    "\<forall>n \<in> set neww. n \<noteq> [] \<and> \<not> existsSync (publicDir st) n \<and> existsSync (publicDir st') n"
    unfolding effect_def by blast
  have "inj_on (path_join dir) (set neww)"
    using a(3) by (intro inj_onI) (auto dest: path_join_inj [rotated])
  with a(2) have "distinct (map (path_join dir) neww)"
    using distinct_map [of "path_join dir" neww] by blast
  moreover have "\<forall>p \<in> set (map (path_join dir) neww). \<exists>n. p = path_join dir n \<and> n \<noteq> [] \<and>
                     \<not> existsSync (publicDir st) n \<and> existsSync (publicDir st') n"
    using a(3) by auto
  ultimately show ?thesis using a(1) by blast
qed

text \<open>
  A name that is the cache file name of none of the references resolves after the loop
  as before.
\<close>

lemma process_matches_frame:
  "process_matches e live dir ms (doc, st) = (doc', st') \<Longrightarrow>
   (\<forall>m \<in> set ms. \<forall>pn. url_pathname e (remoteUrl m) = Some pn \<longrightarrow> basename pn \<noteq> n) \<Longrightarrow>
   map_of (publicDir st') n = map_of (publicDir st) n"
proof (induction ms arbitrary: doc st)
  case Nil
  then show ?case by (simp add: process_matches_Nil)
next
  case (Cons m ms)
  obtain t1 s1 where step: "loop_body e live dir (doc, st) m = (t1, s1)"
    by fastforce
  with Cons.prems have rest: "process_matches e live dir ms (t1, s1) = (doc', st')"
    by (simp add: process_matches_Cons)
  from Cons.prems(2) have other: "\<forall>pn. url_pathname e (remoteUrl m) = Some pn \<longrightarrow> basename pn \<noteq> n"
    and others: "\<forall>m \<in> set ms. \<forall>pn. url_pathname e (remoteUrl m) = Some pn \<longrightarrow> basename pn \<noteq> n"
    by simp_all
  from loop_body_cases [OF step] other have "map_of (publicDir s1) n = map_of (publicDir st) n"
    by (elim disjE exE conjE) auto
  with Cons.IH [OF rest others] show ?case by simp
qed

lemma distinct_count_le_1: "distinct xs \<Longrightarrow> count_list xs p \<le> 1"
  by (induction xs) (auto simp: count_list_0_iff)

lemma process_matches_used:
  "m \<in> set ms \<Longrightarrow> remoteUrl m \<noteq> [] \<Longrightarrow> url_pathname e (remoteUrl m) = Some pn \<Longrightarrow>
   process_matches e live dir ms (doc, st) = (doc', st') \<Longrightarrow>
   path_join dir (basename pn) \<in> allUsedImages st'"
proof (induction ms arbitrary: doc st)
  case Nil
  then show ?case by simp
next
  case (Cons a ms)
  obtain t1 s1 where step: "loop_body e live dir (doc, st) a = (t1, s1)"
    by fastforce
  with Cons.prems have rest: "process_matches e live dir ms (t1, s1) = (doc', st')"
    by (simp add: process_matches_Cons)
  show ?case
  proof (cases "m = a")
    case True
    with loop_body_cases [OF step] Cons.prems(2,3)
    have "path_join dir (basename pn) \<in> allUsedImages s1" by auto
    moreover from process_matches_effect [OF rest] have "allUsedImages s1 \<subseteq> allUsedImages st'"
      unfolding effect_def by blast
    ultimately show ?thesis by blast
  next
    case False
    with Cons.prems(1) have "m \<in> set ms" by simp
    from Cons.IH [OF this Cons.prems(2,3) rest] show ?thesis .
  qed
qed

subsection \<open>Every match has an address\<close>

lemma lazy_dots_from: "lazy_dots k acc s = Some r \<Longrightarrow> \<exists>a t. k a t = Some r"
proof (induction s arbitrary: acc)
  case Nil
  then show ?case by auto
next
  case (Cons c cs)
  show ?case
  proof (cases "k acc (c # cs)")
    case (Some r')
    with Cons.prems show ?thesis by auto
  next
    case None
    with Cons.prems have "lazy_dots k (acc @ [c]) cs = Some r"
      by (simp split: if_splits)
    from Cons.IH [OF this] show ?thesis .
  qed
qed

lemma url_group_remoteUrl: "url_group alt s = Some r \<Longrightarrow> remoteUrl (fst r) \<noteq> []"
  unfolding url_group_def
  by (auto split: option.splits list.splits if_splits simp: close_paren_def
        dest!: lazy_dots_from)

lemma image_regex_at_remoteUrl: "image_regex_at s = Some r \<Longrightarrow> remoteUrl (fst r) \<noteq> []"
  unfolding image_regex_at_def
  by (auto split: option.splits dest!: lazy_dots_from url_group_remoteUrl)

lemma matchAll_remoteUrl: "m \<in> set (matchAll s) \<Longrightarrow> remoteUrl m \<noteq> []"
proof (induction s rule: matchAll.induct)
  case 1
  then show ?case by simp
next
  case (2 c cs)
  show ?case
  proof (cases "image_regex_at (c # cs)")
    case None
    with 2 show ?thesis by simp
  next
    case (Some r)
    with 2 image_regex_at_remoteUrl [OF Some] show ?thesis by auto
  qed
qed

text \<open>
  Claim C6, as the code has it. Let a document be externalised twice in a row, from the
  state \<open>st\<close> to \<open>st1\<close> and from \<open>st1\<close> to \<open>st2\<close>. For every remote image reference of
  the document whose address parses and whose cache file exists in \<open>st\<close>: the first run
  does not call \<open>fetch\<close> with its address and does not write its cache path, the cache
  file resolves after the run to what it was (same bytes), and its cache path is in
  \<open>allUsedImages\<close> afterwards. Over both runs together no path is written more than
  once, and the second run calls \<open>fetch\<close> only for addresses whose cache file is still
  missing after the first run: an image that a run has stored is not fetched again, an
  image whose fetch failed can be. (The outcome of \<open>fetch\<close> may differ from call to
  call.)
\<close>

theorem cached_image_is_reused:
  assumes run1: "processMarkdownImages e dir markdown live st = (doc1, st1)"
    and run2: "processMarkdownImages e dir markdown live st1 = (doc2, st2)"
  shows "(\<forall>m \<in> set (matchAll markdown). \<forall>pathname.
            url_pathname e (remoteUrl m) = Some pathname \<and>
            existsSync (publicDir st) (basename pathname) \<longrightarrow>
              remoteUrl m \<notin> set (drop (length (fetched st)) (fetched st1)) \<and>
              path_join dir (basename pathname) \<notin> set (drop (length (writes st)) (writes st1)) \<and>
              map_of (publicDir st1) (basename pathname)
                = map_of (publicDir st) (basename pathname) \<and>
              path_join dir (basename pathname) \<in> allUsedImages st1) \<and>
         (\<forall>p. count_list (drop (length (writes st)) (writes st2)) p \<le> 1) \<and>
         (\<forall>u \<in> set (drop (length (fetched st1)) (fetched st2)).
            \<exists>pn. url_pathname e u = Some pn \<and> \<not> existsSync (publicDir st1) (basename pn))"
proof -
  from run1 have p1: "process_matches e live dir (matchAll markdown) (markdown, st) = (doc1, st1)"
    by (simp add: processMarkdownImages_def)
  from run2 have p2: "process_matches e live dir (matchAll markdown) (markdown, st1) = (doc2, st2)"
    by (simp add: processMarkdownImages_def)
  have e1: "effect e dir st st1" using p1 by (rule process_matches_effect)
  have e2: "effect e dir st1 st2" using p2 by (rule process_matches_effect)
  have e12: "effect e dir st st2" using e1 e2 by (rule effect_trans)
  from e1 obtain newf where f1: "fetched st1 = fetched st @ newf"
    "\<forall>u \<in> set newf. \<exists>pn. url_pathname e u = Some pn \<and> \<not> existsSync (publicDir st) (basename pn)"
    unfolding effect_def by blast
  from effect_writes_once [OF e1] obtain neww where w1: "writes st1 = writes st @ neww"
    "\<forall>p \<in> set neww. \<exists>n. p = path_join dir n \<and> n \<noteq> [] \<and> \<not> existsSync (publicDir st) n \<and>
                         existsSync (publicDir st1) n"
    by blast
  have hit: "remoteUrl m \<notin> set (drop (length (fetched st)) (fetched st1)) \<and>
             path_join dir (basename pathname) \<notin> set (drop (length (writes st)) (writes st1)) \<and>
             map_of (publicDir st1) (basename pathname) = map_of (publicDir st) (basename pathname) \<and>
             path_join dir (basename pathname) \<in> allUsedImages st1"
    if m: "m \<in> set (matchAll markdown)" and u: "url_pathname e (remoteUrl m) = Some pathname"
      and ex: "existsSync (publicDir st) (basename pathname)"
    for m pathname
  proof -
    have "remoteUrl m \<notin> set newf"
      using f1(2) u ex by auto
    moreover have "path_join dir (basename pathname) \<notin> set neww"
    proof
      assume "path_join dir (basename pathname) \<in> set neww"
      with w1(2) obtain n where n: "path_join dir (basename pathname) = path_join dir n"
        "n \<noteq> []" "\<not> existsSync (publicDir st) n"
        by blast
      from path_join_inj [OF n(2,1)] n(3) ex show False by simp
    qed
    moreover have "map_of (publicDir st1) (basename pathname)
                     = map_of (publicDir st) (basename pathname)"
      using effect_lookup [OF e1 ex] by simp
    moreover have "path_join dir (basename pathname) \<in> allUsedImages st1"
      using m matchAll_remoteUrl [OF m] u p1 by (rule process_matches_used)
    ultimately show ?thesis by (simp add: f1(1) w1(1))
  qed
  have once: "count_list (drop (length (writes st)) (writes st2)) p \<le> 1" for p
  proof -
    from effect_writes_once [OF e12] obtain new where
      "writes st2 = writes st @ new" "distinct new"
      by blast
    then show ?thesis using distinct_count_le_1 [of new p] by simp
  qed
  have again: "\<forall>u \<in> set (drop (length (fetched st1)) (fetched st2)).
            \<exists>pn. url_pathname e u = Some pn \<and> \<not> existsSync (publicDir st1) (basename pn)"
  proof -
    from e2 obtain newf2 where "fetched st2 = fetched st1 @ newf2"
      "\<forall>u \<in> set newf2. \<exists>pn. url_pathname e u = Some pn \<and>
                           \<not> existsSync (publicDir st1) (basename pn)"
      unfolding effect_def by blast
    then show ?thesis by simp
  qed
  from hit once again show ?thesis by blast
qed

text \<open>
  Claim C7, as the code has it. Let the loop reach the reference \<open>m\<close> of the document
  with the text \<open>doc\<close> and the state \<open>st1\<close>, let the address of \<open>m\<close> parse and its cache
  file be missing, and let the fetch reject or answer with a status that is not \<open>ok\<close>.
  Then the turn of the loop for \<open>m\<close> leaves the text as it is (it does not rewrite the
  reference), leaves the directory as it is and writes no file, and the console receives
  the download line followed by the error line. The loop goes on: the result of
  \<open>processMarkdownImages\<close> is what the remaining references produce from this text and
  state. When none of the remaining references has the cache file name of \<open>m\<close>, there is
  no file at the cache path of \<open>m\<close> in the result either.
\<close>

theorem failed_fetch_keeps_reference:
  assumes "matchAll markdown = ms1 @ m # ms2"
    and "process_matches e live dir ms1 (markdown, st) = (doc, st1)"
    and "url_pathname e (remoteUrl m) = Some pathname"
    and "\<not> existsSync (publicDir st1) (basename pathname)"
    and "fetch e (length (fetched st1)) (remoteUrl m) = None \<or>
         (\<exists>resp. fetch e (length (fetched st1)) (remoteUrl m) = Some resp \<and> \<not> ok resp)"
  shows "\<exists>st2 err.
           loop_body e live dir (doc, st1) m = (doc, st2) \<and>
           publicDir st2 = publicDir st1 \<and> writes st2 = writes st1 \<and>
           console st2 = console st1 @ [Downloading (remoteUrl m),
                                         ErrorProcessing (remoteUrl m) err] \<and>
           (err = FetchRejected \<or> (\<exists>t. err = FetchNotOk t)) \<and>
           processMarkdownImages e dir markdown live st
             = process_matches e live dir ms2 (doc, st2) \<and>
           ((\<forall>m' \<in> set ms2. \<forall>pn. url_pathname e (remoteUrl m') = Some pn
                \<longrightarrow> basename pn \<noteq> basename pathname) \<longrightarrow>
            \<not> existsSync (publicDir (snd (processMarkdownImages e dir markdown live st)))
                 (basename pathname))"
proof -
  let ?name = "basename pathname"
  let ?st = "st1\<lparr>allUsedImages := insert (path_join dir ?name) (allUsedImages st1)\<rparr>"
  from assms(1) have "m \<in> set (matchAll markdown)" by simp
  then have nonempty: "remoteUrl m \<noteq> []" by (rule matchAll_remoteUrl)
  from assms(5) have "fetch e (length (fetched ?st)) (remoteUrl m) = None \<or>
         (\<exists>resp. fetch e (length (fetched ?st)) (remoteUrl m) = Some resp \<and> \<not> ok resp)"
    by simp
  from download_failed_fetch [OF this, of ?name "path_join dir ?name"]
  obtain err where dl: "download e (remoteUrl m) ?name (path_join dir ?name) ?st
           = (Inl err, ?st\<lparr>console := console ?st @ [Downloading (remoteUrl m)],
                            fetched := fetched ?st @ [remoteUrl m]\<rparr>)"
    and err: "err = FetchRejected \<or> (\<exists>t. err = FetchNotOk t)"
    by blast
  let ?st2 = "?st\<lparr>console := console st1 @ [Downloading (remoteUrl m),
                                              ErrorProcessing (remoteUrl m) err],
                   fetched := fetched st1 @ [remoteUrl m]\<rparr>"
  have body: "loop_body e live dir (doc, st1) m = (doc, ?st2)"
    using nonempty assms(3,4) dl by (simp add: loop_body_def try_block_def Let_def)
  have "processMarkdownImages e dir markdown live st
          = process_matches e live dir ms2 (loop_body e live dir (doc, st1) m)"
    unfolding processMarkdownImages_def assms(1) process_matches_append assms(2)
    by (simp add: process_matches_Cons)
  with body have result: "processMarkdownImages e dir markdown live st
          = process_matches e live dir ms2 (doc, ?st2)"
    by simp
  have absent: "\<not> existsSync (publicDir (snd (processMarkdownImages e dir markdown live st))) ?name"
    if others: "\<forall>m' \<in> set ms2. \<forall>pn. url_pathname e (remoteUrl m') = Some pn
                  \<longrightarrow> basename pn \<noteq> ?name"
  proof -
    obtain doc3 st3 where run: "process_matches e live dir ms2 (doc, ?st2) = (doc3, st3)"
      by fastforce
    from process_matches_frame [OF run others]
    have "map_of (publicDir st3) ?name = map_of (publicDir st1) ?name" by simp
    from existsSync_lookup [OF this] assms(4) show ?thesis
      by (simp add: result run)
  qed
  from body err result absent show ?thesis
    by (intro exI [of _ ?st2] exI [of _ err]) simp
qed

text \<open>
  A document with one reference whose file \<open>cat.png\<close> is already in the output
  directory, in live-preview mode.
\<close>

theorem cached_image_is_reused_witness:
  "''https://ex.com/img/cat.png'' \<notin> set (fetched (snd (processMarkdownImages
       \<lparr>url_pathname = (\<lambda>u. Some ''/img/cat.png''), fetch = (\<lambda>n u. None),
        imagemin_buffer = Some, os_denied = {}\<rparr>
       ''/site/public'' ''![cat](https://ex.com/img/cat.png)'' True
       \<lparr>allUsedImages = {}, publicDir = [(''cat.png'', File ''CACHED'')],
        fetched = [], writes = [], console = []\<rparr>))) \<and>
   ''/site/public/cat.png'' \<notin> set (writes (snd (processMarkdownImages
       \<lparr>url_pathname = (\<lambda>u. Some ''/img/cat.png''), fetch = (\<lambda>n u. None),
        imagemin_buffer = Some, os_denied = {}\<rparr>
       ''/site/public'' ''![cat](https://ex.com/img/cat.png)'' True
       \<lparr>allUsedImages = {}, publicDir = [(''cat.png'', File ''CACHED'')],
        fetched = [], writes = [], console = []\<rparr>))) \<and>
   map_of (publicDir (snd (processMarkdownImages
       \<lparr>url_pathname = (\<lambda>u. Some ''/img/cat.png''), fetch = (\<lambda>n u. None),
        imagemin_buffer = Some, os_denied = {}\<rparr>
       ''/site/public'' ''![cat](https://ex.com/img/cat.png)'' True
       \<lparr>allUsedImages = {}, publicDir = [(''cat.png'', File ''CACHED'')],
        fetched = [], writes = [], console = []\<rparr>))) ''cat.png'' = Some (File ''CACHED'') \<and>
   ''/site/public/cat.png'' \<in> allUsedImages (snd (processMarkdownImages
       \<lparr>url_pathname = (\<lambda>u. Some ''/img/cat.png''), fetch = (\<lambda>n u. None),
        imagemin_buffer = Some, os_denied = {}\<rparr>
       ''/site/public'' ''![cat](https://ex.com/img/cat.png)'' True
       \<lparr>allUsedImages = {}, publicDir = [(''cat.png'', File ''CACHED'')],
        fetched = [], writes = [], console = []\<rparr>))"
proof -
  let ?e = "\<lparr>url_pathname = (\<lambda>u. Some ''/img/cat.png''), fetch = (\<lambda>n u. None),
        imagemin_buffer = Some, os_denied = {}\<rparr>"
  let ?s = "\<lparr>allUsedImages = {}, publicDir = [(''cat.png'', File ''CACHED'')],
        fetched = [], writes = [], console = []\<rparr>"
  let ?md = "''![cat](https://ex.com/img/cat.png)''"
  let ?m = "\<lparr>fullMatch = ''![cat](https://ex.com/img/cat.png)'', altText = ''cat'',
             remoteUrl = ''https://ex.com/img/cat.png''\<rparr>"
  let ?r1 = "processMarkdownImages ?e ''/site/public'' ?md True ?s"
  let ?r2 = "processMarkdownImages ?e ''/site/public'' ?md True (snd ?r1)"
  have run1: "?r1 = (fst ?r1, snd ?r1)" and run2: "?r2 = (fst ?r2, snd ?r2)"
    by simp_all
  have all: "matchAll ?md = [?m]" by code_simp
  have name: "basename ''/img/cat.png'' = ''cat.png''" by code_simp
  have cached: "existsSync (publicDir ?s) (basename ''/img/cat.png'')"
    unfolding name by (simp add: existsSync_def)
  have path: "path_join ''/site/public'' ''cat.png'' = ''/site/public/cat.png''"
    by (simp add: path_join_def)
  from cached_image_is_reused [OF run1 run2] all cached
  have "remoteUrl ?m \<notin> set (drop (length (fetched ?s)) (fetched (snd ?r1))) \<and>
        path_join ''/site/public'' (basename ''/img/cat.png'')
          \<notin> set (drop (length (writes ?s)) (writes (snd ?r1))) \<and>
        map_of (publicDir (snd ?r1)) (basename ''/img/cat.png'')
          = map_of (publicDir ?s) (basename ''/img/cat.png'') \<and>
        path_join ''/site/public'' (basename ''/img/cat.png'') \<in> allUsedImages (snd ?r1)"
    by simp
  then show ?thesis unfolding name path by simp
qed

text \<open>
  The scenario of the specification: the only reference of the document answers
  \<open>Not Found\<close>; the returned text is the document and the directory has no new entry.
\<close>

theorem failed_fetch_keeps_reference_witness:
  "fst (processMarkdownImages
       \<lparr>url_pathname = (\<lambda>u. Some ''/img.png''),
        fetch = (\<lambda>n u. Some \<lparr>ok = False, statusText = ''Not Found'', arrayBuffer = None\<rparr>),
        imagemin_buffer = Some, os_denied = {}\<rparr>
       ''/site/public'' ''![x](https://bad.example/img.png)'' False
       \<lparr>allUsedImages = {}, publicDir = [(''index.html'', File ''H'')],
        fetched = [], writes = [], console = []\<rparr>)
     = ''![x](https://bad.example/img.png)'' \<and>
   publicDir (snd (processMarkdownImages
       \<lparr>url_pathname = (\<lambda>u. Some ''/img.png''),
        fetch = (\<lambda>n u. Some \<lparr>ok = False, statusText = ''Not Found'', arrayBuffer = None\<rparr>),
        imagemin_buffer = Some, os_denied = {}\<rparr>
       ''/site/public'' ''![x](https://bad.example/img.png)'' False
       \<lparr>allUsedImages = {}, publicDir = [(''index.html'', File ''H'')],
        fetched = [], writes = [], console = []\<rparr>))
     = [(''index.html'', File ''H'')] \<and>
   writes (snd (processMarkdownImages
       \<lparr>url_pathname = (\<lambda>u. Some ''/img.png''),
        fetch = (\<lambda>n u. Some \<lparr>ok = False, statusText = ''Not Found'', arrayBuffer = None\<rparr>),
        imagemin_buffer = Some, os_denied = {}\<rparr>
       ''/site/public'' ''![x](https://bad.example/img.png)'' False
       \<lparr>allUsedImages = {}, publicDir = [(''index.html'', File ''H'')],
        fetched = [], writes = [], console = []\<rparr>)) = []"
proof -
  let ?e = "\<lparr>url_pathname = (\<lambda>u. Some ''/img.png''),
        fetch = (\<lambda>n u. Some \<lparr>ok = False, statusText = ''Not Found'', arrayBuffer = None\<rparr>),
        imagemin_buffer = Some, os_denied = {}\<rparr>"
  let ?s = "\<lparr>allUsedImages = {}, publicDir = [(''index.html'', File ''H'')],
        fetched = [], writes = [], console = []\<rparr>"
  let ?md = "''![x](https://bad.example/img.png)''"
  let ?m = "\<lparr>fullMatch = ''![x](https://bad.example/img.png)'', altText = ''x'',
             remoteUrl = ''https://bad.example/img.png''\<rparr>"
  have all: "matchAll ?md = [] @ ?m # []" by code_simp
  have before: "process_matches ?e False ''/site/public'' [] (?md, ?s) = (?md, ?s)"
    by (simp add: process_matches_Nil)
  have url: "url_pathname ?e (remoteUrl ?m) = Some ''/img.png''" by simp
  have name: "basename ''/img.png'' = ''img.png''" by code_simp
  have absent: "\<not> existsSync (publicDir ?s) (basename ''/img.png'')"
    unfolding name by (simp add: existsSync_def)
  have failing: "fetch ?e (length (fetched ?s)) (remoteUrl ?m) = None \<or>
     (\<exists>resp. fetch ?e (length (fetched ?s)) (remoteUrl ?m) = Some resp \<and> \<not> ok resp)"
    by simp
  from failed_fetch_keeps_reference [OF all before url absent failing]
  obtain st2 where "publicDir st2 = publicDir ?s" "writes st2 = writes ?s"
    "processMarkdownImages ?e ''/site/public'' ?md False ?s
       = process_matches ?e False ''/site/public'' [] (?md, st2)"
    by blast
  then show ?thesis by (simp add: process_matches_Nil)
qed

text \<open>
  Claim C6 as stated fails in its last part. A document with one reference, an empty
  output directory and a network that rejects every fetch: the first run fetches the
  address and stores nothing, so the second run fetches the same address again.
\<close>

theorem failed_fetch_repeated_counterexample:
  "fetched (snd (processMarkdownImages
       \<lparr>url_pathname = [''https://h/p.png'' \<mapsto> ''/p.png''], fetch = curry Map.empty,
        imagemin_buffer = Some, os_denied = {}\<rparr>
       ''/site/public'' ''![a](https://h/p.png)'' False
       (snd (processMarkdownImages
          \<lparr>url_pathname = [''https://h/p.png'' \<mapsto> ''/p.png''], fetch = curry Map.empty,
           imagemin_buffer = Some, os_denied = {}\<rparr>
          ''/site/public'' ''![a](https://h/p.png)'' False
          \<lparr>allUsedImages = {}, publicDir = [], fetched = [], writes = [], console = []\<rparr>))))
   = [''https://h/p.png'', ''https://h/p.png'']"
  by code_simp

text \<open>
  Claim C7 as stated fails. The same reference occurs twice; the first fetch rejects, the
  second succeeds. \<open>replace\<close> rewrites the first occurrence of the match text, which is
  the reference whose fetch failed, and the file at its cache path exists in the end.
\<close>

theorem failed_reference_rewritten_counterexample:
  "fst (processMarkdownImages
       \<lparr>url_pathname = [''https://h/p.png'' \<mapsto> ''/p.png''],
        fetch = curry [(1, ''https://h/p.png'')
                         \<mapsto> \<lparr>ok = True, statusText = ''OK'', arrayBuffer = Some ''PNG''\<rparr>],
        imagemin_buffer = Some, os_denied = {}\<rparr>
       ''/site/public'' ''![a](https://h/p.png) ![a](https://h/p.png)'' False
       \<lparr>allUsedImages = {}, publicDir = [], fetched = [], writes = [], console = []\<rparr>)
     = ''![a](/p.png) ![a](https://h/p.png)'' \<and>
   publicDir (snd (processMarkdownImages
       \<lparr>url_pathname = [''https://h/p.png'' \<mapsto> ''/p.png''],
        fetch = curry [(1, ''https://h/p.png'')
                         \<mapsto> \<lparr>ok = True, statusText = ''OK'', arrayBuffer = Some ''PNG''\<rparr>],
        imagemin_buffer = Some, os_denied = {}\<rparr>
       ''/site/public'' ''![a](https://h/p.png) ![a](https://h/p.png)'' False
       \<lparr>allUsedImages = {}, publicDir = [], fetched = [], writes = [], console = []\<rparr>))
     = [(''p.png'', File ''PNG'')] \<and>
   console (snd (processMarkdownImages
       \<lparr>url_pathname = [''https://h/p.png'' \<mapsto> ''/p.png''],
        fetch = curry [(1, ''https://h/p.png'')
                         \<mapsto> \<lparr>ok = True, statusText = ''OK'', arrayBuffer = Some ''PNG''\<rparr>],
        imagemin_buffer = Some, os_denied = {}\<rparr>
       ''/site/public'' ''![a](https://h/p.png) ![a](https://h/p.png)'' False
       \<lparr>allUsedImages = {}, publicDir = [], fetched = [], writes = [], console = []\<rparr>))
     = [Downloading ''https://h/p.png'',
        ErrorProcessing ''https://h/p.png'' FetchRejected,
        Downloading ''https://h/p.png'',
        SavedTo ''/site/public/p.png'']"
  by code_simp

end
